theory Spec2Isabelle
  imports Main "HOL-Library.Word" "HOL-Library.Sublist" "HOL-Library.AList"
begin

section \<open>Win32 vocabulary used by Environment.cpp\<close>

text \<open>
  \<open>DWORD\<close> is an unsigned 32-bit integer, so \<open>requestedSize + 1\<close> and
  \<open>requestedSize - 1\<close> wrap around. A \<open>std::wstring\<close> is a list of characters; its
  \<open>size()\<close> is a \<open>size_t\<close>, read here as a natural number.
\<close>

type_synonym DWORD = "32 word"
type_synonym wstring = string

definition ERROR_SUCCESS :: DWORD where
  "ERROR_SUCCESS = 0"

definition ERROR_ENVVAR_NOT_FOUND :: DWORD where
  "ERROR_ENVVAR_NOT_FOUND = 203"

definition NUL :: char where
  "NUL = CHR 0x00"

text \<open>
  What the code can throw: \<open>std::system_error(code, std::system_category(), what)\<close>
  and the \<open>std::filesystem::filesystem_error\<close> of the filesystem library.
\<close>

datatype error = system_error DWORD string | filesystem_error string

section \<open>The operating system seen by the query functions\<close>

text \<open>
  One call of a size-probing facility (\<open>ExpandEnvironmentStringsW\<close>,
  \<open>GetEnvironmentVariableW\<close>, \<open>GetCurrentDirectory\<close>, \<open>GetDllDirectory\<close>) answers with
  the returned \<open>DWORD\<close>, the characters it stored at the start of the caller's buffer, and
  the code it passed to \<open>SetLastError\<close>, if it set one. The facility is external to the
  module: it is a parameter, a function of the number of calls made so far on the thread
  (so that its answers may change between the probe and the fill) and of the buffer size
  passed.
\<close>

record response =
  ret :: DWORD
  written :: wstring
  err :: "DWORD option"

type_synonym facility = "nat \<Rightarrow> nat \<Rightarrow> response"

text \<open>The calling thread: how many facility calls it has made, and its last-error value.\<close>

record thread =
  calls :: nat
  last_error :: DWORD

definition SetLastError :: "DWORD \<Rightarrow> thread \<Rightarrow> thread" where
  "SetLastError e th = th\<lparr>last_error := e\<rparr>"

definition GetLastError :: "thread \<Rightarrow> DWORD" where
  "GetLastError th = last_error th"

definition invoke :: "facility \<Rightarrow> thread \<Rightarrow> nat \<Rightarrow> response \<times> thread" where
  "invoke F th n =
     (let r = F (calls th) n
      in (r, th\<lparr>calls := Suc (calls th),
                last_error := (case err r of None \<Rightarrow> last_error th | Some e \<Rightarrow> e)\<rparr>))"

text \<open>\<open>std::wstring::resize\<close>: truncate, or pad with null characters.\<close>

definition resize :: "nat \<Rightarrow> wstring \<Rightarrow> wstring" where
  "resize n s = take n s @ replicate (n - length s) NUL"

text \<open>The facility writing its characters over the start of \<open>expandedStr.data()\<close>.\<close>

definition store :: "wstring \<Rightarrow> wstring \<Rightarrow> wstring" where
  "store w buf = take (length buf) (w @ drop (length w) buf)"

section \<open>The query functions\<close>

text \<open>
  Each \<open>do ... while\<close> loop is a recursive function with a bound on its iterations:
  \<open>None\<close> means the bound was reached before the loop ended. A result is the value
  returned or the exception thrown, with the thread state left behind.
\<close>

type_synonym 'a outcome = "((error + 'a) \<times> thread) option"

subsection \<open>\<open>ExpandEnvironmentVariables\<close>\<close>

fun ExpandEnvironmentVariables_loop ::
  "nat \<Rightarrow> facility \<Rightarrow> thread \<Rightarrow> wstring \<Rightarrow> DWORD \<Rightarrow> wstring outcome" where
  "ExpandEnvironmentVariables_loop 0 F th expandedStr requestedSize = None"
| "ExpandEnvironmentVariables_loop (Suc fuel) F th expandedStr requestedSize =
     (let buf = resize (unat requestedSize) expandedStr;
          (r, th1) = invoke F th (unat requestedSize);
          buf1 = store (written r) buf;
          requestedSize1 = ret r
      in if requestedSize1 = 0
         then Some (Inl (system_error (GetLastError th1) ''ExpandEnvironmentVariables''), th1)
         else if length buf1 \<noteq> unat requestedSize1
         then ExpandEnvironmentVariables_loop fuel F th1 buf1 requestedSize1
         else Some (Inr (resize (unat (requestedSize1 - 1)) buf1), th1))"

definition ExpandEnvironmentVariables ::
  "nat \<Rightarrow> (wstring \<Rightarrow> facility) \<Rightarrow> thread \<Rightarrow> wstring \<Rightarrow> wstring outcome" where
  "ExpandEnvironmentVariables fuel ExpandEnvironmentStringsW th str =
     (let (r, th1) = invoke (ExpandEnvironmentStringsW str) th 0;
          requestedSize = ret r
      in if requestedSize = 0
         then Some (Inl (system_error (GetLastError th1) ''ExpandEnvironmentVariables''), th1)
         else ExpandEnvironmentVariables_loop fuel (ExpandEnvironmentStringsW str) th1 []
                requestedSize)"

subsection \<open>\<open>GetEnvironmentVariableValue\<close>\<close>

fun GetEnvironmentVariableValue_loop ::
  "nat \<Rightarrow> facility \<Rightarrow> thread \<Rightarrow> wstring \<Rightarrow> DWORD \<Rightarrow> wstring option outcome" where
  "GetEnvironmentVariableValue_loop 0 F th expandedStr requestedSize = None"
| "GetEnvironmentVariableValue_loop (Suc fuel) F th expandedStr requestedSize =
     (let buf = resize (unat requestedSize) expandedStr;
          (r, th1) = invoke F th (unat requestedSize);
          buf1 = store (written r) buf;
          requestedSize1 = ret r
      in if requestedSize1 = 0
         then (if GetLastError th1 = ERROR_ENVVAR_NOT_FOUND
               then Some (Inr None, th1)
               else Some (Inl (system_error (GetLastError th1) ''ExpandEnvironmentStringsW''),
                          th1))
         else if length buf1 \<noteq> unat (requestedSize1 + 1)
         then GetEnvironmentVariableValue_loop fuel F th1 buf1 requestedSize1
         else Some (Inr (Some (resize (unat requestedSize1) buf1)), th1))"

definition GetEnvironmentVariableValue ::
  "nat \<Rightarrow> (wstring \<Rightarrow> facility) \<Rightarrow> thread \<Rightarrow> wstring \<Rightarrow> wstring option outcome" where
  "GetEnvironmentVariableValue fuel GetEnvironmentVariableW th str =
     (let (r, th1) = invoke (GetEnvironmentVariableW str) th 0;
          requestedSize = ret r
      in if requestedSize = 0
         then (if GetLastError th1 = ERROR_ENVVAR_NOT_FOUND
               then Some (Inr None, th1)
               else Some (Inl (system_error (GetLastError th1) ''GetEnvironmentVariableW''),
                          th1))
         else if requestedSize = 1
         then Some (Inr None, th1)
         else GetEnvironmentVariableValue_loop fuel (GetEnvironmentVariableW str) th1 []
                requestedSize)"

subsection \<open>\<open>GetCurrentDirectoryValue\<close>\<close>

fun GetCurrentDirectoryValue_loop ::
  "nat \<Rightarrow> facility \<Rightarrow> thread \<Rightarrow> wstring \<Rightarrow> DWORD \<Rightarrow> wstring outcome" where
  "GetCurrentDirectoryValue_loop 0 F th expandedStr requestedSize = None"
| "GetCurrentDirectoryValue_loop (Suc fuel) F th expandedStr requestedSize =
     (let buf = resize (unat requestedSize) expandedStr;
          (r, th1) = invoke F th (unat requestedSize);
          buf1 = store (written r) buf;
          requestedSize1 = ret r
      in if requestedSize1 = 0
         then Some (Inl (system_error (GetLastError th1) ''GetCurrentDirectory''), th1)
         else if length buf1 \<noteq> unat (requestedSize1 + 1)
         then GetCurrentDirectoryValue_loop fuel F th1 buf1 requestedSize1
         else Some (Inr (resize (unat requestedSize1) buf1), th1))"

definition GetCurrentDirectoryValue :: "nat \<Rightarrow> facility \<Rightarrow> thread \<Rightarrow> wstring outcome" where
  "GetCurrentDirectoryValue fuel GetCurrentDirectory th =
     (let (r, th1) = invoke GetCurrentDirectory th 0;
          requestedSize = ret r
      in if requestedSize = 0
         then Some (Inl (system_error (GetLastError th1) ''GetCurrentDirectory''), th1)
         else GetCurrentDirectoryValue_loop fuel GetCurrentDirectory th1 [] requestedSize)"

subsection \<open>\<open>GetDllDirectoryValue\<close>\<close>

fun GetDllDirectoryValue_loop ::
  "nat \<Rightarrow> facility \<Rightarrow> thread \<Rightarrow> wstring \<Rightarrow> DWORD \<Rightarrow> wstring outcome" where
  "GetDllDirectoryValue_loop 0 F th expandedStr requestedSize = None"
| "GetDllDirectoryValue_loop (Suc fuel) F th expandedStr requestedSize =
     (let buf = resize (unat requestedSize) expandedStr;
          (r, th1) = invoke F th (unat requestedSize);
          buf1 = store (written r) buf;
          requestedSize1 = ret r
      in if requestedSize1 = 0 \<and> GetLastError th1 \<noteq> ERROR_SUCCESS
         then Some (Inl (system_error (GetLastError th1) ''GetDllDirectory''), th1)
         else if length buf1 \<noteq> unat (requestedSize1 + 1)
         then GetDllDirectoryValue_loop fuel F th1 buf1 requestedSize1
         else Some (Inr (resize (unat requestedSize1) buf1), th1))"

definition GetDllDirectoryValue :: "nat \<Rightarrow> facility \<Rightarrow> thread \<Rightarrow> wstring outcome" where
  "GetDllDirectoryValue fuel GetDllDirectory th =
     (let th0 = SetLastError ERROR_SUCCESS th;
          (r, th1) = invoke GetDllDirectory th0 0;
          requestedSize = ret r
      in if requestedSize = 0
         then (if GetLastError th1 \<noteq> ERROR_SUCCESS
               then Some (Inl (system_error (GetLastError th1) ''GetDllDirectory''), th1)
               else Some (Inr [], th1))
         else GetDllDirectoryValue_loop fuel GetDllDirectory th1 [] requestedSize)"

subsection \<open>The documented behaviour of two facilities\<close>

text \<open>
  Convergence of the retry loops depends on how the facility answers. These two
  definitions state the contract Win32 documents, over the value the operating system
  holds at each call (\<open>vals k\<close> is the value at call number \<open>k\<close> of the thread).

  \<open>ExpandEnvironmentStringsW\<close> returns the number of characters of the expanded string
  including the terminating null, and stores the string and the terminator when the buffer
  holds that many characters.
\<close>

definition expanded_string :: "(nat \<Rightarrow> wstring) \<Rightarrow> facility" where
  "expanded_string vals k n =
     (let e = vals k
      in if length e + 1 \<le> n
         then \<lparr>ret = of_nat (length e + 1), written = e @ [NUL], err = None\<rparr>
         else \<lparr>ret = of_nat (length e + 1), written = [], err = None\<rparr>)"

text \<open>
  \<open>GetEnvironmentVariableW\<close> fails with \<open>ERROR_ENVVAR_NOT_FOUND\<close> when the variable is not
  set. When the buffer holds the value and its terminator it stores both and returns the
  length without the terminator; otherwise it returns the size required, terminator
  included.
\<close>

definition environment_variable :: "(nat \<Rightarrow> wstring option) \<Rightarrow> facility" where
  "environment_variable vals k n =
     (case vals k of
        None \<Rightarrow> \<lparr>ret = 0, written = [], err = Some ERROR_ENVVAR_NOT_FOUND\<rparr>
      | Some v \<Rightarrow>
          if length v < n
          then \<lparr>ret = of_nat (length v), written = v @ [NUL], err = None\<rparr>
          else \<lparr>ret = of_nat (length v + 1), written = [], err = None\<rparr>)"

section \<open>The filesystem seen by the directory synchronizer\<close>

text \<open>
  A \<open>std::filesystem::path\<close> is kept as the sequence of the components it is written
  with. \<open>path_of\<close> splits a string at the directory separators (backslash and slash):
  empty components are dropped, a leading separator leaves an empty first component, which
  stands for the root directory, and the empty string gives the empty path.
  \<open>target_folder / t\<close> is concatenation, \<open>filename\<close> is the last component and
  \<open>native\<close> spells a path with the preferred separator. The guard of
  \<open>CopyToDirectory\<close> works on the strings themselves.
\<close>

type_synonym path = "wstring list"

definition preferred_separator :: char where
  "preferred_separator = CHR 0x5C"

definition is_separator :: "char \<Rightarrow> bool" where
  "is_separator c = (c = CHR 0x5C \<or> c = CHR ''/'')"

fun components :: "wstring \<Rightarrow> wstring \<Rightarrow> path" where
  "components acc [] = (if acc = [] then [] else [acc])"
| "components acc (c # cs) =
     (if is_separator c
      then (if acc = [] then components [] cs else acc # components [] cs)
      else components (acc @ [c]) cs)"

definition path_of :: "wstring \<Rightarrow> path" where
  "path_of s =
     (if s \<noteq> [] \<and> is_separator (hd s) then [] # components [] s else components [] s)"

fun native :: "path \<Rightarrow> wstring" where
  "native [] = []"
| "native [c] = (if c = [] then [preferred_separator] else c)"
| "native (c # d # cs) = c @ [preferred_separator] @ native (d # cs)"

definition filename :: "path \<Rightarrow> path" where
  "filename p = (if p = [] then [] else [last p])"

definition parent_path :: "path \<Rightarrow> path" where
  "parent_path p = butlast p"

text \<open>
  The operating system resolves a path before it looks anything up: the root component
  and every component \<open>.\<close> are dropped and a component \<open>..\<close> takes back the component
  before it (at the root it does nothing). What is left is the key of the entry, the names
  that lead to it from the root directory. Relative paths start at the root directory
  (the current directory is the root and does not move), names are compared as they are
  written and there are no links, so that two keys are two entries. A name that an entry
  can have is \<open>plain\<close>.
\<close>

definition descend :: "path \<Rightarrow> wstring \<Rightarrow> path" where
  "descend k c = (if c = [] \<or> c = ''.'' then k else if c = ''..'' then butlast k else k @ [c])"

definition key_of :: "path \<Rightarrow> path" where
  "key_of p = foldl descend [] p"

definition plain :: "wstring \<Rightarrow> bool" where
  "plain c = (c \<noteq> [] \<and> c \<noteq> ''.'' \<and> c \<noteq> ''..'')"

text \<open>
  The state the synchronizer reads and writes: the entries of the filesystem as an
  association list from keys to nodes (a node has a type, its bytes and its last write
  time, a \<open>file_time_type\<close> tick count), the keys on which the operating system refuses
  creation, copying and deletion (locked files, missing rights), the length a resolved
  path must stay below (\<open>MAX_PATH\<close>), the time that the next change stamps, the
  last-error value of the thread, the calls of \<open>CopyFile\<close> and \<open>CreateDirectory\<close> that
  the operating system has received, each with the error it failed with, and the log.
\<close>

datatype file_type = regular | directory | other

record node =
  ftype :: file_type
  content :: "8 word list"
  mtime :: int

datatype log_entry = LOG_INFO wstring | LOG_LAST_ERROR DWORD

datatype call =
    CopyFile_call path path "DWORD option"
  | CreateDirectory_call path "DWORD option"

record world =
  files :: "(path \<times> node) list"
  denied :: "path set"
  path_limit :: nat
  clock :: int
  last_err :: DWORD
  journal :: "call list"
  log :: "log_entry list"

definition ERROR_FILE_NOT_FOUND :: DWORD where "ERROR_FILE_NOT_FOUND = 2"
definition ERROR_PATH_NOT_FOUND :: DWORD where "ERROR_PATH_NOT_FOUND = 3"
definition ERROR_ACCESS_DENIED :: DWORD where "ERROR_ACCESS_DENIED = 5"
definition ERROR_SHARING_VIOLATION :: DWORD where "ERROR_SHARING_VIOLATION = 32"
definition ERROR_FILE_EXISTS :: DWORD where "ERROR_FILE_EXISTS = 80"
definition ERROR_ALREADY_EXISTS :: DWORD where "ERROR_ALREADY_EXISTS = 183"
definition ERROR_FILENAME_EXCED_RANGE :: DWORD where "ERROR_FILENAME_EXCED_RANGE = 206"

type_synonym HRESULT = "32 word"

definition S_OK :: HRESULT where "S_OK = 0"
definition E_FAIL :: HRESULT where "E_FAIL = 0x80004005"

text \<open>
  \<open>lookup\<close> reads the entry at a key, \<open>stat\<close> the entry that a path names: the empty
  path names nothing. \<open>exists\<close>, \<open>is_directory\<close> and \<open>last_write_time\<close> are those of
  \<open>std::filesystem\<close>; the last one throws when there is no entry.
\<close>

definition lookup :: "world \<Rightarrow> path \<Rightarrow> node option" where
  "lookup w k = map_of (files w) k"

definition stat :: "world \<Rightarrow> path \<Rightarrow> node option" where
  "stat w p = (if p = [] then None else lookup w (key_of p))"

definition exists :: "world \<Rightarrow> path \<Rightarrow> bool" where
  "exists w p = (stat w p \<noteq> None)"

definition is_directory :: "world \<Rightarrow> path \<Rightarrow> bool" where
  "is_directory w p = (case stat w p of None \<Rightarrow> False | Some nd \<Rightarrow> ftype nd = directory)"

definition last_write_time :: "world \<Rightarrow> path \<Rightarrow> error + int" where
  "last_write_time w p =
     (case stat w p of
        None \<Rightarrow> Inl (filesystem_error ''last_write_time'')
      | Some nd \<Rightarrow> Inr (mtime nd))"

definition dir_at :: "world \<Rightarrow> path \<Rightarrow> bool" where
  "dir_at w k = (case lookup w k of None \<Rightarrow> False | Some nd \<Rightarrow> ftype nd = directory)"

text \<open>
  A Win32 call that fails returns \<open>FALSE\<close>, sets the last error and changes no entry; a
  call that succeeds lets the time pass. Both are recorded. \<open>CreateDirectory\<close> needs a
  path that is not empty and not too long, a name not in use and an existing parent
  directory, or else is refused with the error of \<open>CreateDirectory_refusal\<close>.
  \<open>CopyFile\<close> needs a regular source file, a target that is another entry, not too
  long, in an existing directory and, with \<open>bFailIfExists = FALSE\<close>, absent or a
  regular file: \<open>CopyFile_source\<close> is the node to copy, or the error. The copy carries
  bytes and last write time. Creating an entry advances the last write time of the
  directory it is created in (\<open>stamp\<close>); overwriting a file does not.
\<close>

definition fail :: "(DWORD option \<Rightarrow> call) \<Rightarrow> DWORD \<Rightarrow> world \<Rightarrow> bool \<times> world" where
  "fail c e w = (False, w\<lparr>last_err := e, journal := journal w @ [c (Some e)]\<rparr>)"

definition succeed ::
  "(DWORD option \<Rightarrow> call) \<Rightarrow> (path \<times> node) list \<Rightarrow> world \<Rightarrow> bool \<times> world" where
  "succeed c fs w = (True, w\<lparr>files := fs, clock := clock w + 1, journal := journal w @ [c None]\<rparr>)"

definition stamp :: "path \<Rightarrow> int \<Rightarrow> (path \<times> node) list \<Rightarrow> (path \<times> node) list" where
  "stamp k time fs =
     (case map_of fs k of None \<Rightarrow> fs | Some nd \<Rightarrow> AList.update k (nd\<lparr>mtime := time\<rparr>) fs)"

definition CreateDirectory_refusal :: "world \<Rightarrow> path \<Rightarrow> DWORD option" where
  "CreateDirectory_refusal w p =
     (let k = key_of p
      in if p = [] then Some ERROR_PATH_NOT_FOUND
         else if path_limit w \<le> length (native k) then Some ERROR_FILENAME_EXCED_RANGE
         else if k \<in> denied w then Some ERROR_ACCESS_DENIED
         else if lookup w k \<noteq> None then Some ERROR_ALREADY_EXISTS
         else if k = [] \<or> \<not> dir_at w (parent_path k) then Some ERROR_PATH_NOT_FOUND
         else None)"

definition CreateDirectory :: "world \<Rightarrow> path \<Rightarrow> bool \<times> world" where
  "CreateDirectory w p =
     (let k = key_of p; c = CreateDirectory_call p
      in case CreateDirectory_refusal w p of
           Some e \<Rightarrow> fail c e w
         | None \<Rightarrow>
             succeed c
               (AList.update k \<lparr>ftype = directory, content = [], mtime = clock w\<rparr>
                  (stamp (parent_path k) (clock w) (files w))) w)"

definition CopyFile_source :: "world \<Rightarrow> path \<Rightarrow> path \<Rightarrow> bool \<Rightarrow> DWORD + node" where
  "CopyFile_source w existing new bFailIfExists =
     (let a = key_of existing; b = key_of new
      in if existing = [] \<or> new = [] then Inl ERROR_PATH_NOT_FOUND
         else case lookup w a of
           None \<Rightarrow> Inl ERROR_FILE_NOT_FOUND
         | Some nd \<Rightarrow>
             if ftype nd \<noteq> regular then Inl ERROR_ACCESS_DENIED
             else if path_limit w \<le> length (native b) then Inl ERROR_FILENAME_EXCED_RANGE
             else if a = b \<or> a \<in> denied w \<or> b \<in> denied w then Inl ERROR_SHARING_VIOLATION
             else if b = [] \<or> \<not> dir_at w (parent_path b) then Inl ERROR_PATH_NOT_FOUND
             else (case lookup w b of
                     None \<Rightarrow> Inr nd
                   | Some old \<Rightarrow>
                       if bFailIfExists then Inl ERROR_FILE_EXISTS
                       else if ftype old \<noteq> regular then Inl ERROR_ACCESS_DENIED
                       else Inr nd))"

definition CopyFile :: "world \<Rightarrow> path \<Rightarrow> path \<Rightarrow> bool \<Rightarrow> bool \<times> world" where
  "CopyFile w existing new bFailIfExists =
     (let b = key_of new; c = CopyFile_call existing new
      in case CopyFile_source w existing new bFailIfExists of
           Inl e \<Rightarrow> fail c e w
         | Inr nd \<Rightarrow>
             succeed c
               (AList.update b nd
                  (if lookup w b = None then stamp (parent_path b) (clock w) (files w)
                   else files w)) w)"

text \<open>
  \<open>remove_all\<close> deletes the entry and everything below it, and throws when an entry
  cannot be deleted (what it deleted before it throws is not recorded); on a path that
  names nothing it does nothing. \<open>directory_iterator\<close> throws unless its argument is a
  directory; it lists the entries directly below as they are when the loop starts, each
  under the path of the directory extended by its name and with the file type it caches
  (a binding of the association list shadowed by an earlier one is no entry). Contents
  and times are read from the filesystem when they are needed.
\<close>

definition remove_all :: "world \<Rightarrow> path \<Rightarrow> error + world" where
  "remove_all w p =
     (let k = key_of p
      in if stat w p = None then Inr w
         else if \<exists>q \<in> fst ` set (files w). prefix k q \<and> q \<in> denied w
         then Inl (filesystem_error ''remove_all'')
         else Inr (w\<lparr>files := stamp (parent_path k) (clock w)
                                (filter (\<lambda>(q, nd). \<not> prefix k q) (files w)),
                     clock := clock w + 1\<rparr>))"

type_synonym directory_entry = "path \<times> file_type"

definition directory_iterator :: "world \<Rightarrow> path \<Rightarrow> error + directory_entry list" where
  "directory_iterator w p =
     (if is_directory w p
      then Inr (map (\<lambda>(k, nd). (p @ [last k], ftype nd))
                 (filter (\<lambda>(k, nd). k \<noteq> [] \<and> parent_path k = key_of p \<and> plain (last k))
                    (AList.clearjunk (files w))))
      else Inl (filesystem_error ''directory_iterator::directory_iterator''))"

section \<open>The directory synchronizer\<close>

text \<open>
  \<open>CopyDirTo\<close> calls itself for every subdirectory; whether that ends depends on the
  filesystem, so the recursion depth is bounded by a counter and \<open>None\<close> means the
  bound was reached. A result is the exception thrown, if any, and the state left behind.
  \<open>up_to_date\<close> is the check of lines 194 to 202, \<open>copy_regular_file\<close> the branch for a
  regular file and \<open>for_each_entry\<close> the range-based \<open>for\<close> loop.
\<close>

type_synonym walk = "((error + unit) \<times> world) option"

definition up_to_date :: "world \<Rightarrow> path \<Rightarrow> path \<Rightarrow> error + bool" where
  "up_to_date w p d =
     (if exists w d
      then (case last_write_time w p of
              Inl e \<Rightarrow> Inl e
            | Inr originalFileTime \<Rightarrow>
                (case last_write_time w d of
                   Inl e \<Rightarrow> Inl e
                 | Inr destFileTime \<Rightarrow> Inr (originalFileTime \<le> destFileTime)))
      else Inr False)"

definition copy_regular_file :: "world \<Rightarrow> path \<Rightarrow> path \<Rightarrow> (error + unit) \<times> world" where
  "copy_regular_file w target_folder p =
     (let t = filename p;
          d = target_folder @ t
      in case up_to_date w p d of
           Inl e \<Rightarrow> (Inl e, w)
         | Inr True \<Rightarrow> (Inr (), w)
         | Inr False \<Rightarrow>
             (let (res, w1) = CopyFile w p d False
              in if res
                 then (Inr (), w1\<lparr>log := log w1 @ [LOG_INFO ''WOW'']\<rparr>)
                 else (Inr (), w1\<lparr>log := log w1 @ [LOG_LAST_ERROR (last_err w1)]\<rparr>)))"

fun for_each_entry ::
  "(world \<Rightarrow> path \<Rightarrow> path \<Rightarrow> walk) \<Rightarrow> world \<Rightarrow> path \<Rightarrow> directory_entry list \<Rightarrow> walk" where
  "for_each_entry CopyDirTo w target_folder [] = Some (Inr (), w)"
| "for_each_entry CopyDirTo w target_folder ((p, ty) # ps) =
     (if ty = regular
      then (case copy_regular_file w target_folder p of
              (Inl e, w1) \<Rightarrow> Some (Inl e, w1)
            | (Inr u, w1) \<Rightarrow> for_each_entry CopyDirTo w1 target_folder ps)
      else if ty = directory
      then (case CopyDirTo w p (target_folder @ filename p) of
              None \<Rightarrow> None
            | Some (Inl e, w1) \<Rightarrow> Some (Inl e, w1)
            | Some (Inr u, w1) \<Rightarrow> for_each_entry CopyDirTo w1 target_folder ps)
      else for_each_entry CopyDirTo w target_folder ps)"

fun CopyDirTo :: "nat \<Rightarrow> world \<Rightarrow> path \<Rightarrow> path \<Rightarrow> walk" where
  "CopyDirTo 0 w source_folder target_folder = None"
| "CopyDirTo (Suc fuel) w source_folder target_folder =
     (let w1 = (if \<not> exists w target_folder
                then snd (CreateDirectory w target_folder) else w)
      in case directory_iterator w1 source_folder of
           Inl e \<Rightarrow> Some (Inl e, w1)
         | Inr ps \<Rightarrow> for_each_entry (CopyDirTo fuel) w1 target_folder ps)"

text \<open>
  \<open>std::wstring::find\<close>: the first position at which the argument occurs, \<open>None\<close> for
  \<open>npos\<close>.
\<close>

fun wfind :: "wstring \<Rightarrow> wstring \<Rightarrow> nat option" where
  "wfind [] str = (if str = [] then Some 0 else None)"
| "wfind (c # cs) str =
     (if prefix str (c # cs) then Some 0 else map_option Suc (wfind cs str))"

definition clean_destination :: "world \<Rightarrow> path \<Rightarrow> bool \<Rightarrow> error + world" where
  "clean_destination w destination cleanDest =
     (if cleanDest \<and> exists w destination then remove_all w destination else Inr w)"

definition CopyToDirectory ::
  "nat \<Rightarrow> world \<Rightarrow> wstring \<Rightarrow> wstring \<Rightarrow> bool \<Rightarrow> ((error + HRESULT) \<times> world) option" where
  "CopyToDirectory fuel w destination source cleanDest =
     (let tempPath = destination
      in if wfind tempPath source = Some 0
         then Some (Inr E_FAIL, w)
         else (case clean_destination w (path_of destination) cleanDest of
                 Inl e \<Rightarrow> Some (Inl e, w)
               | Inr w1 \<Rightarrow>
                   (case CopyDirTo fuel w1 (path_of source) (path_of destination) of
                      None \<Rightarrow> None
                    | Some (Inl e, w2) \<Rightarrow> Some (Inl e, w2)
                    | Some (Inr u, w2) \<Rightarrow> Some (Inr S_OK, w2))))"

section \<open>Invariants of the walk\<close>

text \<open>
  \<open>preserved w w'\<close>: every entry of \<open>w\<close> is still there in \<open>w'\<close>, with the same type.
  \<open>touched s t w w'\<close>, for keys \<open>s\<close> and \<open>t\<close>: an entry that differs between \<open>w\<close> and
  \<open>w'\<close> lies at or under \<open>t\<close>, and it is new or has a counterpart under \<open>s\<close> in \<open>w'\<close>.
  \<open>footprint s t w w'\<close> allows one more change: the last write time of the directory in
  which \<open>t\<close> has been created. \<open>bounded B w\<close>: no key has more than \<open>B\<close> names.
\<close>

definition preserved :: "world \<Rightarrow> world \<Rightarrow> bool" where
  "preserved w w' =
     (\<forall>q nd. lookup w q = Some nd \<longrightarrow> (\<exists>nd'. lookup w' q = Some nd' \<and> ftype nd' = ftype nd))"

definition touched :: "path \<Rightarrow> path \<Rightarrow> world \<Rightarrow> world \<Rightarrow> bool" where
  "touched s t w w' =
     (\<forall>q. lookup w' q \<noteq> lookup w q \<longrightarrow>
          prefix t q \<and> (lookup w q = None \<or> lookup w' (s @ drop (length t) q) \<noteq> None))"

definition restamped :: "node option \<Rightarrow> node option \<Rightarrow> bool" where
  "restamped a b = (\<exists>nd time. a = Some nd \<and> b = Some (nd\<lparr>mtime := time\<rparr>))"

definition footprint :: "path \<Rightarrow> path \<Rightarrow> world \<Rightarrow> world \<Rightarrow> bool" where
  "footprint s t w w' =
     (\<forall>q. lookup w' q \<noteq> lookup w q \<longrightarrow>
          (prefix t q \<and> (lookup w q = None \<or> lookup w' (s @ drop (length t) q) \<noteq> None)) \<or>
          (q = parent_path t \<and> t \<noteq> [] \<and> lookup w t = None \<and> lookup w' t \<noteq> None \<and>
           restamped (lookup w q) (lookup w' q)))"

definition bounded :: "nat \<Rightarrow> world \<Rightarrow> bool" where
  "bounded B w = (\<forall>k. lookup w k \<noteq> None \<longrightarrow> length k \<le> B)"

text \<open>
  What the log owes to a call: a line for a copy that succeeded, the last error for a
  copy that failed, nothing for a directory creation. \<open>logged w w'\<close>: the calls and the
  log of \<open>w'\<close> continue those of \<open>w\<close>, and the new part of the log is what the new calls
  owe, in their order. \<open>continues w w'\<close>: \<open>w'\<close> keeps the entries of \<open>w\<close> and their
  types, continues its calls and its log, and has the same refused keys and the same
  limit. \<open>source_file w s r\<close>: in \<open>w\<close> the names \<open>r\<close> lead from the directory at key
  \<open>s\<close> through directories to a regular file.
\<close>

fun log_of :: "call \<Rightarrow> log_entry list" where
  "log_of (CopyFile_call a b None) = [LOG_INFO ''WOW'']"
| "log_of (CopyFile_call a b (Some e)) = [LOG_LAST_ERROR e]"
| "log_of (CreateDirectory_call p r) = []"

definition logged :: "call list \<Rightarrow> world \<Rightarrow> world \<Rightarrow> bool" where
  "logged cs w w' =
     (journal w' = journal w @ cs \<and> log w' = log w @ concat (map log_of cs))"

definition continues :: "world \<Rightarrow> world \<Rightarrow> bool" where
  "continues w w' =
     (preserved w w' \<and> (\<exists>cs. logged cs w w') \<and>
      denied w' = denied w \<and> path_limit w' = path_limit w)"

fun failed :: "call \<Rightarrow> bool" where
  "failed (CopyFile_call a b r) = (r \<noteq> None)"
| "failed (CreateDirectory_call p r) = (r \<noteq> None)"

fun source_file :: "world \<Rightarrow> path \<Rightarrow> path \<Rightarrow> bool" where
  "source_file w s [] = False"
| "source_file w s [n] =
     (plain n \<and> dir_at w s \<and>
      (case lookup w (s @ [n]) of None \<Rightarrow> False | Some nd \<Rightarrow> ftype nd = regular))"
| "source_file w s (n # m # r) = (plain n \<and> dir_at w s \<and> source_file w (s @ [n]) (m # r))"

text \<open>The exceptions that come from reading the filesystem.\<close>

definition thrown_by_reads :: "error \<Rightarrow> bool" where
  "thrown_by_reads e =
     (e = filesystem_error ''directory_iterator::directory_iterator'' \<or>
      e = filesystem_error ''last_write_time'')"

section \<open>Concrete inputs\<close>

text \<open>Facilities, threads and filesystems on which the theorems below are instantiated.\<close>

definition twice_grown_expansion :: "wstring \<Rightarrow> nat \<Rightarrow> wstring" where
  "twice_grown_expansion str k =
     (if k = 0 then ''ab'' else if k = 1 then ''abcd'' else ''abcdef'')"

definition twice_grown_variable :: "wstring \<Rightarrow> nat \<Rightarrow> wstring option" where
  "twice_grown_variable str k =
     (if k = 0 then Some ''ab'' else if k = 1 then Some ''abcd'' else Some ''abcdef'')"

definition late_expansion :: "wstring \<Rightarrow> nat \<Rightarrow> wstring" where
  "late_expansion str k = (if k < 2 then ''ab'' else ''abcdef'')"

definition thread0 :: thread where
  "thread0 = \<lparr>calls = 0, last_error = ERROR_SUCCESS\<rparr>"

definition unset_dll_directory :: facility where
  "unset_dll_directory k n = \<lparr>ret = 0, written = [], err = None\<rparr>"

definition failing_dll_directory :: facility where
  "failing_dll_directory k n = \<lparr>ret = 0, written = [], err = Some 5\<rparr>"

definition failing_fill :: "wstring \<Rightarrow> facility" where
  "failing_fill str k n =
     (if n = 0 then \<lparr>ret = 5, written = [], err = None\<rparr>
      else \<lparr>ret = 0, written = [], err = Some 8\<rparr>)"

definition app_dir :: wstring where
  "app_dir = ''C:'' @ [preferred_separator] @ ''app''"

definition apple_dir :: wstring where
  "apple_dir = ''C:'' @ [preferred_separator] @ ''apple''"

definition absent_variable :: "wstring \<Rightarrow> facility" where
  "absent_variable str k n = \<lparr>ret = 0, written = [], err = Some ERROR_ENVVAR_NOT_FOUND\<rparr>"

definition empty_variable :: "wstring \<Rightarrow> facility" where
  "empty_variable str k n = \<lparr>ret = 1, written = [], err = None\<rparr>"

definition stale_world :: world where
  "stale_world =
     \<lparr>files = [([], \<lparr>ftype = directory, content = [], mtime = 0\<rparr>),
               ([''src''], \<lparr>ftype = directory, content = [], mtime = 1\<rparr>),
               ([''src'', ''f''], \<lparr>ftype = regular, content = [1], mtime = 10\<rparr>),
               ([''dst''], \<lparr>ftype = directory, content = [], mtime = 1\<rparr>),
               ([''dst'', ''f''], \<lparr>ftype = regular, content = [2], mtime = 5\<rparr>)],
      denied = {}, path_limit = 260, clock = 20, last_err = 0, journal = [], log = []\<rparr>"

definition refreshed_world :: world where
  "refreshed_world =
     \<lparr>files = [([], \<lparr>ftype = directory, content = [], mtime = 0\<rparr>),
               ([''src''], \<lparr>ftype = directory, content = [], mtime = 1\<rparr>),
               ([''src'', ''f''], \<lparr>ftype = regular, content = [1], mtime = 10\<rparr>),
               ([''dst''], \<lparr>ftype = directory, content = [], mtime = 1\<rparr>),
               ([''dst'', ''f''], \<lparr>ftype = regular, content = [1], mtime = 10\<rparr>)],
      denied = {}, path_limit = 260, clock = 21, last_err = 0,
      journal = [CopyFile_call [''src'', ''f''] [''dst'', ''f''] None],
      log = [LOG_INFO ''WOW'']\<rparr>"

definition locked_world :: world where
  "locked_world =
     \<lparr>files = [([], \<lparr>ftype = directory, content = [], mtime = 0\<rparr>),
               ([''src''], \<lparr>ftype = directory, content = [], mtime = 1\<rparr>),
               ([''src'', ''f''], \<lparr>ftype = regular, content = [1], mtime = 10\<rparr>),
               ([''src'', ''g''], \<lparr>ftype = regular, content = [3], mtime = 11\<rparr>),
               ([''src'', ''sub''], \<lparr>ftype = directory, content = [], mtime = 1\<rparr>),
               ([''src'', ''sub'', ''h''], \<lparr>ftype = regular, content = [4], mtime = 12\<rparr>),
               ([''dst''], \<lparr>ftype = directory, content = [], mtime = 1\<rparr>),
               ([''dst'', ''f''], \<lparr>ftype = regular, content = [2], mtime = 5\<rparr>),
               ([''dst'', ''stray''], \<lparr>ftype = regular, content = [7], mtime = 2\<rparr>)],
      denied = {[''dst'', ''f'']}, path_limit = 260, clock = 20, last_err = 0,
      journal = [], log = []\<rparr>"

definition sealed_world :: world where
  "sealed_world =
     \<lparr>files = [([], \<lparr>ftype = directory, content = [], mtime = 0\<rparr>),
               ([''src''], \<lparr>ftype = directory, content = [], mtime = 1\<rparr>),
               ([''src'', ''f''], \<lparr>ftype = regular, content = [1], mtime = 10\<rparr>)],
      denied = {[''dst'']}, path_limit = 260, clock = 20, last_err = 0,
      journal = [], log = []\<rparr>"

definition nested_world :: world where
  "nested_world =
     \<lparr>files = [([], \<lparr>ftype = directory, content = [], mtime = 0\<rparr>),
               ([''dst''], \<lparr>ftype = directory, content = [], mtime = 1\<rparr>),
               ([''dst'', ''a''], \<lparr>ftype = directory, content = [], mtime = 1\<rparr>),
               ([''dst'', ''a'', ''a''], \<lparr>ftype = directory, content = [], mtime = 1\<rparr>),
               ([''dst'', ''a'', ''a'', ''b''], \<lparr>ftype = directory, content = [], mtime = 1\<rparr>),
               ([''dst'', ''a'', ''a'', ''b'', ''x''],
                  \<lparr>ftype = regular, content = [9], mtime = 50\<rparr>),
               ([''dst'', ''a'', ''b''], \<lparr>ftype = directory, content = [], mtime = 1\<rparr>),
               ([''dst'', ''b''], \<lparr>ftype = directory, content = [], mtime = 1\<rparr>),
               ([''dst'', ''b'', ''x''], \<lparr>ftype = regular, content = [7], mtime = 2\<rparr>)],
      denied = {}, path_limit = 260, clock = 60, last_err = 0, journal = [], log = []\<rparr>"

definition ancestor_world :: world where
  "ancestor_world =
     \<lparr>files = [([], \<lparr>ftype = directory, content = [], mtime = 0\<rparr>),
               ([''src''], \<lparr>ftype = directory, content = [], mtime = 1\<rparr>),
               ([''src'', ''sub''], \<lparr>ftype = directory, content = [], mtime = 1\<rparr>),
               ([''src'', ''sub'', ''f''], \<lparr>ftype = regular, content = [1], mtime = 10\<rparr>)],
      denied = {}, path_limit = 260, clock = 20, last_err = 0, journal = [], log = []\<rparr>"

definition locked_world_after :: world where
  "locked_world_after =
     \<lparr>files = [([], \<lparr>ftype = directory, content = [], mtime = 0\<rparr>),
               ([''src''], \<lparr>ftype = directory, content = [], mtime = 1\<rparr>),
               ([''src'', ''f''], \<lparr>ftype = regular, content = [1], mtime = 10\<rparr>),
               ([''src'', ''g''], \<lparr>ftype = regular, content = [3], mtime = 11\<rparr>),
               ([''src'', ''sub''], \<lparr>ftype = directory, content = [], mtime = 1\<rparr>),
               ([''src'', ''sub'', ''h''], \<lparr>ftype = regular, content = [4], mtime = 12\<rparr>),
               ([''dst''], \<lparr>ftype = directory, content = [], mtime = 21\<rparr>),
               ([''dst'', ''f''], \<lparr>ftype = regular, content = [2], mtime = 5\<rparr>),
               ([''dst'', ''stray''], \<lparr>ftype = regular, content = [7], mtime = 2\<rparr>),
               ([''dst'', ''g''], \<lparr>ftype = regular, content = [3], mtime = 11\<rparr>),
               ([''dst'', ''sub''], \<lparr>ftype = directory, content = [], mtime = 22\<rparr>),
               ([''dst'', ''sub'', ''h''], \<lparr>ftype = regular, content = [4], mtime = 12\<rparr>)],
      denied = {[''dst'', ''f'']}, path_limit = 260, clock = 23,
      last_err = ERROR_SHARING_VIOLATION,
      journal = [CopyFile_call [''src'', ''f''] [''dst'', ''f''] (Some ERROR_SHARING_VIOLATION),
                 CopyFile_call [''src'', ''g''] [''dst'', ''g''] None,
                 CreateDirectory_call [''dst'', ''sub''] None,
                 CopyFile_call [''src'', ''sub'', ''h''] [''dst'', ''sub'', ''h''] None],
      log = [LOG_LAST_ERROR ERROR_SHARING_VIOLATION, LOG_INFO ''WOW'', LOG_INFO ''WOW'']\<rparr>"

definition nested_world_after :: world where
  "nested_world_after =
     \<lparr>files = [([], \<lparr>ftype = directory, content = [], mtime = 0\<rparr>),
               ([''dst''], \<lparr>ftype = directory, content = [], mtime = 1\<rparr>),
               ([''dst'', ''a''], \<lparr>ftype = directory, content = [], mtime = 1\<rparr>),
               ([''dst'', ''a'', ''a''], \<lparr>ftype = directory, content = [], mtime = 1\<rparr>),
               ([''dst'', ''a'', ''a'', ''b''], \<lparr>ftype = directory, content = [], mtime = 1\<rparr>),
               ([''dst'', ''a'', ''a'', ''b'', ''x''],
                  \<lparr>ftype = regular, content = [9], mtime = 50\<rparr>),
               ([''dst'', ''a'', ''b''], \<lparr>ftype = directory, content = [], mtime = 60\<rparr>),
               ([''dst'', ''b''], \<lparr>ftype = directory, content = [], mtime = 1\<rparr>),
               ([''dst'', ''b'', ''x''], \<lparr>ftype = regular, content = [9], mtime = 50\<rparr>),
               ([''dst'', ''a'', ''b'', ''x''], \<lparr>ftype = regular, content = [9], mtime = 50\<rparr>)],
      denied = {}, path_limit = 260, clock = 62, last_err = 0,
      journal = [CopyFile_call [''dst'', ''a'', ''a'', ''b'', ''x'']
                   [''dst'', ''a'', ''b'', ''x''] None,
                 CopyFile_call [''dst'', ''a'', ''b'', ''x''] [''dst'', ''b'', ''x''] None],
      log = [LOG_INFO ''WOW'', LOG_INFO ''WOW'']\<rparr>"

definition ancestor_world_after :: world where
  "ancestor_world_after =
     \<lparr>files = [([], \<lparr>ftype = directory, content = [], mtime = 21\<rparr>),
               ([''src''], \<lparr>ftype = directory, content = [], mtime = 21\<rparr>)],
      denied = {}, path_limit = 260, clock = 22, last_err = 0,
      journal = [CreateDirectory_call [''src''] None], log = []\<rparr>"

section \<open>Properties of the query functions\<close>

subsection \<open>Buffers, calls and 32-bit sizes\<close>

lemma length_resize [simp]: "length (resize n s) = n"
  by (simp add: resize_def)

lemma length_store [simp]: "length (store w buf) = length buf"
  by (simp add: store_def)

lemma resize_store:
  "length v < length buf \<Longrightarrow> resize (length v) (store (v @ [NUL]) buf) = v"
  by (simp add: resize_def store_def)

lemma calls_invoke: "calls (snd (invoke F th n)) = Suc (calls th)"
  by (simp add: invoke_def Let_def)

lemma fst_invoke: "fst (invoke F th n) = F (calls th) n"
  by (simp add: invoke_def Let_def)

lemma unat_of_nat32: "n < 2 ^ 32 \<Longrightarrow> unat (of_nat n :: DWORD) = n"
  by (simp add: unat_of_nat)

lemma unat_of_nat32_Suc: "n + 1 < 2 ^ 32 \<Longrightarrow> unat (of_nat n + 1 :: DWORD) = n + 1"
proof -
  assume a: "n + 1 < 2 ^ 32"
  have "(of_nat n + 1 :: DWORD) = of_nat (n + 1)" by simp
  then show ?thesis using a by (simp only: unat_of_nat32)
qed

subsection \<open>Not found and the empty value\<close>

lemma GetEnvironmentVariableValue_loop_nonempty:
  "GetEnvironmentVariableValue_loop fuel F th buf n = Some (Inr (Some s), th') \<Longrightarrow> s \<noteq> []"
proof (induction fuel arbitrary: th buf n)
  case 0
  then show ?case by simp
next
  case (Suc fuel)
  obtain r th1 where inv: "invoke F th (unat n) = (r, th1)"
    by (cases "invoke F th (unat n)")
  show ?case
  proof (cases "ret r = 0")
    case True
    then show ?thesis using Suc.prems inv by (simp add: Let_def split: if_splits)
  next
    case False
    then have pos: "0 < unat (ret r)" by (simp add: unat_gt_0)
    show ?thesis
    proof (cases "length (store (written r) (resize (unat n) buf)) \<noteq> unat (ret r + 1)")
      case True
      then show ?thesis using Suc.prems Suc.IH inv False by (simp add: Let_def)
    next
      case exit: False
      then have "s = resize (unat (ret r)) (store (written r) (resize (unat n) buf))"
        using Suc.prems inv False by (simp add: Let_def)
      then have "length s = unat (ret r)" by simp
      then show ?thesis using pos by auto
    qed
  qed
qed

text \<open>
  Claim C3. \<open>GetEnvironmentVariableValue\<close> never returns the empty string, whatever
  the facility answers and however long the loop runs. When the probe reports size 0 and
  the last error is \<open>ERROR_ENVVAR_NOT_FOUND\<close>, the result is \<open>nullopt\<close>; when the
  probe reports size exactly 1, the result is \<open>nullopt\<close> as well; when the probe reports
  size 0 with any other last error, a \<open>system_error\<close> with that code is thrown under the
  name \<open>GetEnvironmentVariableW\<close>.
\<close>

theorem GetEnvironmentVariableValue_not_found:
  fixes W :: "wstring \<Rightarrow> facility"
  shows "GetEnvironmentVariableValue fuel W th str \<noteq> Some (Inr (Some []), th') \<and>
    (ret (fst (invoke (W str) th 0)) = 0 \<and>
         GetLastError (snd (invoke (W str) th 0)) = ERROR_ENVVAR_NOT_FOUND \<longrightarrow>
         GetEnvironmentVariableValue fuel W th str = Some (Inr None, snd (invoke (W str) th 0))) \<and>
    (ret (fst (invoke (W str) th 0)) = 1 \<longrightarrow>
         GetEnvironmentVariableValue fuel W th str = Some (Inr None, snd (invoke (W str) th 0))) \<and>
    (ret (fst (invoke (W str) th 0)) = 0 \<and>
         GetLastError (snd (invoke (W str) th 0)) \<noteq> ERROR_ENVVAR_NOT_FOUND \<longrightarrow>
         GetEnvironmentVariableValue fuel W th str =
           Some (Inl (system_error (GetLastError (snd (invoke (W str) th 0)))
                        ''GetEnvironmentVariableW''), snd (invoke (W str) th 0)))"
proof -
  have "GetEnvironmentVariableValue fuel W th str \<noteq> Some (Inr (Some []), th')"
    by (auto simp: GetEnvironmentVariableValue_def Let_def split: prod.splits if_splits
        dest: GetEnvironmentVariableValue_loop_nonempty)
  then show ?thesis
    by (simp add: GetEnvironmentVariableValue_def Let_def split: prod.splits)
qed

theorem GetEnvironmentVariableValue_not_found_witness:
  "GetEnvironmentVariableValue 0 absent_variable thread0 ''ASPNETCORE_ENVIRONMENT'' =
     Some (Inr None, \<lparr>calls = 1, last_error = ERROR_ENVVAR_NOT_FOUND\<rparr>) \<and>
   GetEnvironmentVariableValue 0 empty_variable thread0 ''ASPNETCORE_ENVIRONMENT'' =
     Some (Inr None, \<lparr>calls = 1, last_error = ERROR_SUCCESS\<rparr>)"
  using GetEnvironmentVariableValue_not_found
      [of 0 absent_variable thread0 "''ASPNETCORE_ENVIRONMENT''"]
    GetEnvironmentVariableValue_not_found
      [of 0 empty_variable thread0 "''ASPNETCORE_ENVIRONMENT''"]
  by (simp add: invoke_def absent_variable_def empty_variable_def thread0_def GetLastError_def
      ERROR_ENVVAR_NOT_FOUND_def ERROR_SUCCESS_def)

subsection \<open>The retry loop converges\<close>

lemma ret_expanded_string:
  assumes "length (vals k) + 1 < 2 ^ 32"
  shows "unat (ret (expanded_string vals k n)) = length (vals k) + 1"
proof -
  have "ret (expanded_string vals k n) = of_nat (length (vals k) + 1)"
    by (simp add: expanded_string_def Let_def)
  then show ?thesis using assms by (simp only: unat_of_nat32)
qed

lemma ExpandEnvironmentVariables_loop_sound:
  assumes "ExpandEnvironmentVariables_loop fuel (expanded_string vals) th buf n = Some (Inr s, th')"
    and "\<forall>k. length (vals k) + 1 < 2 ^ 32"
  shows "s = vals (calls th' - 1) \<and> calls th < calls th'"
  using assms(1)
proof (induction fuel arbitrary: th buf n)
  case 0
  then show ?case by simp
next
  case (Suc fuel)
  obtain r th1 where inv: "invoke (expanded_string vals) th (unat n) = (r, th1)"
    by (cases "invoke (expanded_string vals) th (unat n)")
  have r: "r = expanded_string vals (calls th) (unat n)" and th1: "calls th1 = Suc (calls th)"
    using inv fst_invoke[of "expanded_string vals" th "unat n"]
      calls_invoke[of "expanded_string vals" th "unat n"] by simp_all
  let ?e = "vals (calls th)"
  have len: "length ?e + 1 < 2 ^ 32" using assms(2) by blast
  have ret: "ret r = of_nat (length ?e + 1)"
    by (simp add: r expanded_string_def Let_def)
  have uret: "unat (ret r) = length ?e + 1"
    unfolding ret using len by (rule unat_of_nat32)
  have ret0: "ret r \<noteq> 0"
    using uret by (metis Suc_eq_plus1 nat.distinct(1) unat_0)
  have um1: "unat (ret r - 1) = length ?e"
    using len by (simp add: ret unat_of_nat32)
  show ?case
  proof (cases "unat n = length ?e + 1")
    case True
    have w: "written r = ?e @ [NUL]"
      by (simp add: r expanded_string_def Let_def True)
    have "s = resize (length ?e) (store (?e @ [NUL]) (resize (unat n) buf))" and "th' = th1"
      using Suc.prems inv ret0 uret True um1 w by (simp_all add: Let_def)
    then show ?thesis using th1 True by (simp add: resize_store)
  next
    case False
    then have "ExpandEnvironmentVariables_loop fuel (expanded_string vals) th1
                 (store (written r) (resize (unat n) buf)) (ret r) = Some (Inr s, th')"
      using Suc.prems inv ret0 uret by (simp add: Let_def)
    from Suc.IH[OF this] show ?thesis using th1 by simp
  qed
qed

lemma ExpandEnvironmentVariables_loop_stable:
  assumes "\<forall>k\<ge>calls th. vals k = v" and "length v + 1 < 2 ^ 32"
  shows "\<exists>res. ExpandEnvironmentVariables_loop (Suc (Suc 0)) (expanded_string vals) th buf n
           = Some res"
proof -
  obtain r th1 where inv: "invoke (expanded_string vals) th (unat n) = (r, th1)"
    by (cases "invoke (expanded_string vals) th (unat n)")
  have r: "r = expanded_string vals (calls th) (unat n)" and th1: "calls th1 = Suc (calls th)"
    using inv fst_invoke[of "expanded_string vals" th "unat n"]
      calls_invoke[of "expanded_string vals" th "unat n"] by simp_all
  have v0: "vals (calls th) = v" and v1: "vals (calls th1) = v"
    using assms(1) th1 by simp_all
  have uret: "unat (ret r) = length v + 1"
    using assms(2) ret_expanded_string[of vals "calls th" "unat n"] by (simp add: r v0)
  then have ret0: "ret r \<noteq> 0" by auto
  obtain r2 th2 where inv2: "invoke (expanded_string vals) th1 (unat (ret r)) = (r2, th2)"
    by (cases "invoke (expanded_string vals) th1 (unat (ret r))")
  have r2: "r2 = expanded_string vals (calls th1) (unat (ret r))"
    using inv2 fst_invoke[of "expanded_string vals" th1 "unat (ret r)"] by simp
  have uret2: "unat (ret r2) = length v + 1"
    using assms(2) ret_expanded_string[of vals "calls th1" "unat (ret r)"] by (simp add: r2 v1)
  then have ret20: "ret r2 \<noteq> 0" by auto
  show ?thesis
    using inv inv2 ret0 ret20 uret uret2 by (simp add: Let_def)
qed

lemma ExpandEnvironmentVariables_loop_terminates:
  assumes "\<forall>k\<ge>N. vals k = v" and "length v + 1 < 2 ^ 32"
  shows "\<exists>fuel res. ExpandEnvironmentVariables_loop fuel (expanded_string vals) th buf n
           = Some res"
proof (induction "N - calls th" arbitrary: th buf n)
  case 0
  then have "\<forall>k\<ge>calls th. vals k = v" using assms(1) by simp
  from ExpandEnvironmentVariables_loop_stable[OF this assms(2)] show ?case by blast
next
  case (Suc d)
  obtain r th1 where inv: "invoke (expanded_string vals) th (unat n) = (r, th1)"
    by (cases "invoke (expanded_string vals) th (unat n)")
  have th1: "calls th1 = Suc (calls th)"
    using inv calls_invoke[of "expanded_string vals" th "unat n"] by simp
  then have "d = N - calls th1" using Suc.hyps(2) by simp
  from Suc.hyps(1)[OF this] obtain fuel res where
    "ExpandEnvironmentVariables_loop fuel (expanded_string vals) th1
       (store (written r) (resize (unat n) buf)) (ret r) = Some res"
    by blast
  then have "\<exists>res. ExpandEnvironmentVariables_loop (Suc fuel) (expanded_string vals) th buf n
               = Some res"
    using inv by (simp add: Let_def)
  then show ?case by blast
qed

lemma ExpandEnvironmentVariables_loop_value:
  assumes "ExpandEnvironmentVariables_loop fuel (expanded_string vals) th buf n = Some (res, th')"
    and "\<forall>k. length (vals k) + 1 < 2 ^ 32"
  shows "\<exists>s. res = Inr s"
  using assms(1)
proof (induction fuel arbitrary: th buf n)
  case 0
  then show ?case by simp
next
  case (Suc fuel)
  obtain r th1 where inv: "invoke (expanded_string vals) th (unat n) = (r, th1)"
    by (cases "invoke (expanded_string vals) th (unat n)")
  have r: "r = expanded_string vals (calls th) (unat n)"
    using inv fst_invoke[of "expanded_string vals" th "unat n"] by simp
  have "length (vals (calls th)) + 1 < 2 ^ 32" using assms(2) by blast
  then have "unat (ret r) = length (vals (calls th)) + 1"
    unfolding r by (rule ret_expanded_string)
  then have ret0: "ret r \<noteq> 0" by auto
  show ?case
    using Suc.prems Suc.IH inv ret0 by (auto simp: Let_def split: if_splits)
qed

lemma environment_variable_None:
  "vals k = None \<Longrightarrow>
   environment_variable vals k n = \<lparr>ret = 0, written = [], err = Some ERROR_ENVVAR_NOT_FOUND\<rparr>"
  by (simp add: environment_variable_def)

lemma environment_variable_fits:
  assumes "vals k = Some v" and "length v < n" and "length v + 2 < 2 ^ 32"
  shows "unat (ret (environment_variable vals k n)) = length v"
    and "unat (ret (environment_variable vals k n) + 1) = length v + 1"
    and "written (environment_variable vals k n) = v @ [NUL]"
    and "err (environment_variable vals k n) = None"
proof -
  have r: "ret (environment_variable vals k n) = of_nat (length v)"
    using assms(1,2) by (simp add: environment_variable_def)
  show "unat (ret (environment_variable vals k n)) = length v"
    unfolding r using assms(3) by (intro unat_of_nat32) simp
  show "unat (ret (environment_variable vals k n) + 1) = length v + 1"
    unfolding r using assms(3) by (intro unat_of_nat32_Suc) simp
  show "written (environment_variable vals k n) = v @ [NUL]"
    "err (environment_variable vals k n) = None"
    using assms(1,2) by (simp_all add: environment_variable_def)
qed

lemma environment_variable_small:
  assumes "vals k = Some v" and "\<not> length v < n" and "length v + 2 < 2 ^ 32"
  shows "unat (ret (environment_variable vals k n)) = length v + 1"
    and "unat (ret (environment_variable vals k n) + 1) = length v + 2"
    and "written (environment_variable vals k n) = []"
    and "err (environment_variable vals k n) = None"
proof -
  have r: "ret (environment_variable vals k n) = of_nat (length v + 1)"
    using assms(1,2) by (simp add: environment_variable_def)
  show "unat (ret (environment_variable vals k n)) = length v + 1"
    unfolding r using assms(3) by (intro unat_of_nat32) simp
  have "unat (of_nat (length v + 1) + 1 :: DWORD) = (length v + 1) + 1"
    using assms(3) by (intro unat_of_nat32_Suc) simp
  then show "unat (ret (environment_variable vals k n) + 1) = length v + 2"
    unfolding r by simp
  show "written (environment_variable vals k n) = []"
    "err (environment_variable vals k n) = None"
    using assms(1,2) by (simp_all add: environment_variable_def)
qed

lemma GetEnvironmentVariableValue_loop_sound:
  assumes "GetEnvironmentVariableValue_loop fuel (environment_variable vals) th buf n
             = Some (Inr (Some s), th')"
    and "\<forall>k w. vals k = Some w \<longrightarrow> length w + 2 < 2 ^ 32"
  shows "vals (calls th' - 1) = Some s \<and> calls th < calls th'"
  using assms(1)
proof (induction fuel arbitrary: th buf n)
  case 0
  then show ?case by simp
next
  case (Suc fuel)
  let ?F = "environment_variable vals"
  obtain r th1 where inv: "invoke ?F th (unat n) = (r, th1)"
    by (cases "invoke ?F th (unat n)")
  have r: "r = ?F (calls th) (unat n)" and th1: "calls th1 = Suc (calls th)"
    using inv fst_invoke[of ?F th "unat n"] calls_invoke[of ?F th "unat n"] by simp_all
  show ?case
  proof (cases "vals (calls th)")
    case None
    then have "ret r = 0" by (simp add: r environment_variable_None)
    then show ?thesis using Suc.prems inv by (simp add: Let_def split: if_splits)
  next
    case (Some v)
    have len: "length v + 2 < 2 ^ 32" using assms(2) Some by blast
    show ?thesis
    proof (cases "length v < unat n")
      case True
      note f = environment_variable_fits[of vals "calls th" v "unat n", OF Some True len, folded r]
      show ?thesis
      proof (cases "ret r = 0")
        case True
        then show ?thesis using Suc.prems inv by (simp add: Let_def split: if_splits)
      next
        case nz: False
        show ?thesis
        proof (cases "unat n = length v + 1")
          case True
          then have "s = resize (length v) (store (v @ [NUL]) (resize (unat n) buf))"
              and "th' = th1"
            using Suc.prems inv nz f by (simp_all add: Let_def)
          then show ?thesis using th1 True Some by (simp add: resize_store)
        next
          case False
          then have "GetEnvironmentVariableValue_loop fuel ?F th1
                       (store (written r) (resize (unat n) buf)) (ret r)
                     = Some (Inr (Some s), th')"
            using Suc.prems inv nz f by (simp add: Let_def)
          from Suc.IH[OF this] show ?thesis using th1 by simp
        qed
      qed
    next
      case False
      note f = environment_variable_small[of vals "calls th" v "unat n", OF Some False len, folded r]
      have nz: "ret r \<noteq> 0" using f(1) by auto
      have "unat n \<noteq> unat (ret r + 1)" using f(2) False by simp
      then have "GetEnvironmentVariableValue_loop fuel ?F th1
                   (store (written r) (resize (unat n) buf)) (ret r)
                 = Some (Inr (Some s), th')"
        using Suc.prems inv nz by (simp add: Let_def)
      from Suc.IH[OF this] show ?thesis using th1 by simp
    qed
  qed
qed

lemma GetEnvironmentVariableValue_loop_continue:
  "invoke F th (unat n) = (r, th1) \<Longrightarrow> ret r \<noteq> 0 \<Longrightarrow> unat n \<noteq> unat (ret r + 1) \<Longrightarrow>
   GetEnvironmentVariableValue_loop (Suc fuel) F th buf n =
   GetEnvironmentVariableValue_loop fuel F th1 (store (written r) (resize (unat n) buf)) (ret r)"
  by (simp add: Let_def)

lemma GetEnvironmentVariableValue_loop_exact:
  assumes "vals (calls th) = Some v" and "length v + 2 < 2 ^ 32" and "unat n = length v + 1"
  shows "\<exists>res. GetEnvironmentVariableValue_loop (Suc fuel) (environment_variable vals) th buf n
           = Some res"
proof -
  let ?F = "environment_variable vals"
  obtain r th1 where inv: "invoke ?F th (unat n) = (r, th1)"
    by (cases "invoke ?F th (unat n)")
  have r: "r = ?F (calls th) (unat n)"
    using inv fst_invoke[of ?F th "unat n"] by simp
  have "length v < unat n" using assms(3) by simp
  note f = environment_variable_fits[of vals "calls th" v "unat n", OF assms(1) this assms(2),
      folded r]
  show ?thesis using inv f assms(3) by (simp add: Let_def)
qed

lemma GetEnvironmentVariableValue_loop_small:
  assumes "\<forall>k\<ge>calls th. vals k = Some v" and "length v + 2 < 2 ^ 32" and "unat n \<le> length v"
  shows "\<exists>res. GetEnvironmentVariableValue_loop (Suc (Suc fuel)) (environment_variable vals)
            th buf n = Some res"
proof -
  let ?F = "environment_variable vals"
  obtain r th1 where inv: "invoke ?F th (unat n) = (r, th1)"
    by (cases "invoke ?F th (unat n)")
  have r: "r = ?F (calls th) (unat n)" and th1: "calls th1 = Suc (calls th)"
    using inv fst_invoke[of ?F th "unat n"] calls_invoke[of ?F th "unat n"] by simp_all
  have v0: "vals (calls th) = Some v" and v1: "vals (calls th1) = Some v"
    using assms(1) th1 by simp_all
  have "\<not> length v < unat n" using assms(3) by simp
  note f = environment_variable_small[of vals "calls th" v "unat n", OF v0 this assms(2),
      folded r]
  have nz: "ret r \<noteq> 0" using f(1) by auto
  have ne: "unat n \<noteq> unat (ret r + 1)" using f(2) assms(3) by simp
  from GetEnvironmentVariableValue_loop_exact[where vals = vals and th = th1 and n = "ret r",
      OF v1 assms(2) f(1)]
  obtain res where "GetEnvironmentVariableValue_loop (Suc fuel) ?F th1
      (store (written r) (resize (unat n) buf)) (ret r) = Some res"
    by blast
  then show ?thesis
    unfolding GetEnvironmentVariableValue_loop_continue[OF inv nz ne] by blast
qed

lemma GetEnvironmentVariableValue_loop_stable:
  assumes "\<forall>k\<ge>calls th. vals k = x" and "\<forall>w. x = Some w \<longrightarrow> length w + 2 < 2 ^ 32"
  shows "\<exists>fuel res. GetEnvironmentVariableValue_loop fuel (environment_variable vals) th buf n
           = Some res"
proof (cases x)
  case None
  let ?F = "environment_variable vals"
  obtain r th1 where inv: "invoke ?F th (unat n) = (r, th1)"
    by (cases "invoke ?F th (unat n)")
  have r: "r = ?F (calls th) (unat n)"
    using inv fst_invoke[of ?F th "unat n"] by simp
  have "vals (calls th) = None" using assms(1) None by simp
  then have "ret r = 0" by (simp add: r environment_variable_None)
  then have "\<exists>res. GetEnvironmentVariableValue_loop (Suc 0) ?F th buf n = Some res"
    using inv by (simp add: Let_def)
  then show ?thesis by blast
next
  case (Some v)
  let ?F = "environment_variable vals"
  have st: "\<forall>k\<ge>calls th. vals k = Some v" using assms(1) Some by simp
  have len: "length v + 2 < 2 ^ 32" using assms(2) Some by simp
  consider "unat n = length v + 1" | "unat n \<le> length v" | "length v + 1 < unat n"
    by linarith
  then show ?thesis
  proof cases
    case 1
    from GetEnvironmentVariableValue_loop_exact[where vals = vals and th = th and n = n,
        OF _ len 1] st show ?thesis by blast
  next
    case 2
    from GetEnvironmentVariableValue_loop_small[where vals = vals and th = th and n = n,
        OF st len 2] show ?thesis by blast
  next
    case 3
    obtain r th1 where inv: "invoke ?F th (unat n) = (r, th1)"
      by (cases "invoke ?F th (unat n)")
    have r: "r = ?F (calls th) (unat n)" and th1: "calls th1 = Suc (calls th)"
      using inv fst_invoke[of ?F th "unat n"] calls_invoke[of ?F th "unat n"] by simp_all
    have v0: "vals (calls th) = Some v" and st1: "\<forall>k\<ge>calls th1. vals k = Some v"
      using st th1 by simp_all
    have "length v < unat n" using 3 by simp
    note f = environment_variable_fits[of vals "calls th" v "unat n", OF v0 this len, folded r]
    show ?thesis
    proof (cases "ret r = 0")
      case True
      then have "\<exists>res. GetEnvironmentVariableValue_loop (Suc 0) ?F th buf n = Some res"
        using inv by (simp add: Let_def)
      then show ?thesis by blast
    next
      case nz: False
      have ne: "unat n \<noteq> unat (ret r + 1)" using f(2) 3 by simp
      have "unat (ret r) \<le> length v" using f(1) by simp
      from GetEnvironmentVariableValue_loop_small[where vals = vals and th = th1
          and n = "ret r" and fuel = 0, OF st1 len this]
      obtain res where "GetEnvironmentVariableValue_loop (Suc (Suc 0)) ?F th1
          (store (written r) (resize (unat n) buf)) (ret r) = Some res"
        by blast
      then have "GetEnvironmentVariableValue_loop (Suc (Suc (Suc 0))) ?F th buf n = Some res"
        by (simp only: GetEnvironmentVariableValue_loop_continue[OF inv nz ne])
      then show ?thesis by blast
    qed
  qed
qed

lemma GetEnvironmentVariableValue_loop_terminates:
  assumes "\<forall>k\<ge>N. vals k = x" and "\<forall>w. x = Some w \<longrightarrow> length w + 2 < 2 ^ 32"
  shows "\<exists>fuel res. GetEnvironmentVariableValue_loop fuel (environment_variable vals) th buf n
           = Some res"
proof (induction "N - calls th" arbitrary: th buf n)
  case 0
  then have "\<forall>k\<ge>calls th. vals k = x" using assms(1) by simp
  from GetEnvironmentVariableValue_loop_stable[OF this assms(2)] show ?case by blast
next
  case (Suc d)
  let ?F = "environment_variable vals"
  obtain r th1 where inv: "invoke ?F th (unat n) = (r, th1)"
    by (cases "invoke ?F th (unat n)")
  have th1: "calls th1 = Suc (calls th)"
    using inv calls_invoke[of ?F th "unat n"] by simp
  then have "d = N - calls th1" using Suc.hyps(2) by simp
  from Suc.hyps(1)[OF this] obtain fuel res where
    "GetEnvironmentVariableValue_loop fuel ?F th1
       (store (written r) (resize (unat n) buf)) (ret r) = Some res"
    by blast
  then have "\<exists>res. GetEnvironmentVariableValue_loop (Suc fuel) ?F th buf n = Some res"
    using inv by (simp add: Let_def)
  then show ?case by blast
qed

lemma GetEnvironmentVariableValue_loop_value:
  assumes "GetEnvironmentVariableValue_loop fuel (environment_variable vals) th buf n
             = Some (res, th')"
    and "\<forall>k\<ge>calls th. vals k = Some v" and "v \<noteq> []" and "length v + 2 < 2 ^ 32"
  shows "\<exists>s. res = Inr (Some s)"
  using assms(1,2)
proof (induction fuel arbitrary: th buf n)
  case 0
  then show ?case by simp
next
  case (Suc fuel)
  let ?F = "environment_variable vals"
  obtain r th1 where inv: "invoke ?F th (unat n) = (r, th1)"
    by (cases "invoke ?F th (unat n)")
  have r: "r = ?F (calls th) (unat n)" and th1: "calls th1 = Suc (calls th)"
    using inv fst_invoke[of ?F th "unat n"] calls_invoke[of ?F th "unat n"] by simp_all
  have v0: "vals (calls th) = Some v" and st1: "\<forall>k\<ge>calls th1. vals k = Some v"
    using Suc.prems(2) th1 by simp_all
  have nz: "ret r \<noteq> 0"
  proof (cases "length v < unat n")
    case True
    from environment_variable_fits(1)[of vals "calls th" v "unat n", OF v0 True assms(4),
        folded r] assms(3) show ?thesis by auto
  next
    case False
    from environment_variable_small(1)[of vals "calls th" v "unat n", OF v0 False assms(4),
        folded r] show ?thesis by auto
  qed
  show ?case
    using Suc.prems(1) Suc.IH[OF _ st1] inv nz by (auto simp: Let_def split: if_splits)
qed

lemma ExpandEnvironmentVariables_loop_exit:
  assumes "ExpandEnvironmentVariables_loop fuel (expanded_string vals) th buf n = Some (Inr s, th')"
    and "\<forall>k. length (vals k) + 1 < 2 ^ 32"
    and "0 < calls th" and "unat n = length (vals (calls th - 1)) + 1"
  shows "length (vals (calls th' - 1)) = length (vals (calls th' - 2))"
  using assms(1,3,4)
proof (induction fuel arbitrary: th buf n)
  case 0
  then show ?case by simp
next
  case (Suc fuel)
  obtain r th1 where inv: "invoke (expanded_string vals) th (unat n) = (r, th1)"
    by (cases "invoke (expanded_string vals) th (unat n)")
  have r: "r = expanded_string vals (calls th) (unat n)" and th1: "calls th1 = Suc (calls th)"
    using inv fst_invoke[of "expanded_string vals" th "unat n"]
      calls_invoke[of "expanded_string vals" th "unat n"] by simp_all
  let ?e = "vals (calls th)"
  have len: "length ?e + 1 < 2 ^ 32" using assms(2) by blast
  have uret: "unat (ret r) = length ?e + 1"
    unfolding r using len by (rule ret_expanded_string)
  have ret0: "ret r \<noteq> 0"
    using uret by (metis Suc_eq_plus1 nat.distinct(1) unat_0)
  show ?case
  proof (cases "unat n = length ?e + 1")
    case True
    have "th' = th1"
      using Suc.prems(1) inv ret0 uret True by (simp add: Let_def)
    then have "calls th' - 1 = calls th" and "calls th' - 2 = calls th - 1"
      using th1 by simp_all
    then show ?thesis using True Suc.prems(3) by simp
  next
    case False
    then have run: "ExpandEnvironmentVariables_loop fuel (expanded_string vals) th1
                 (store (written r) (resize (unat n) buf)) (ret r) = Some (Inr s, th')"
      using Suc.prems(1) inv ret0 uret by (simp add: Let_def)
    have "0 < calls th1" and "unat (ret r) = length (vals (calls th1 - 1)) + 1"
      using th1 uret by simp_all
    from Suc.IH[OF run this] show ?thesis .
  qed
qed

lemma GetEnvironmentVariableValue_loop_exit:
  assumes "GetEnvironmentVariableValue_loop fuel (environment_variable vals) th buf n
             = Some (Inr (Some s), th')"
    and "\<forall>k w. vals k = Some w \<longrightarrow> length w + 2 < 2 ^ 32"
    and "0 < calls th" and "vals (calls th - 1) = Some vp"
    and "unat n = length vp \<or> unat n = length vp + 1"
  shows "\<exists>b. vals (calls th' - 2) = Some b \<and> (length s = length b \<or> length s + 1 = length b)"
  using assms(1,3,4,5)
proof (induction fuel arbitrary: th buf n vp)
  case 0
  then show ?case by simp
next
  case (Suc fuel)
  let ?F = "environment_variable vals"
  obtain r th1 where inv: "invoke ?F th (unat n) = (r, th1)"
    by (cases "invoke ?F th (unat n)")
  have r: "r = ?F (calls th) (unat n)" and th1: "calls th1 = Suc (calls th)"
    using inv fst_invoke[of ?F th "unat n"] calls_invoke[of ?F th "unat n"] by simp_all
  have pos1: "0 < calls th1" and prev1: "calls th1 - 1 = calls th"
    using th1 by simp_all
  show ?case
  proof (cases "vals (calls th)")
    case None
    then have "ret r = 0" by (simp add: r environment_variable_None)
    then show ?thesis using Suc.prems(1) inv by (simp add: Let_def split: if_splits)
  next
    case (Some v)
    have len: "length v + 2 < 2 ^ 32" using assms(2) Some by blast
    have here: "vals (calls th1 - 1) = Some v" using Some prev1 by simp
    show ?thesis
    proof (cases "length v < unat n")
      case True
      note f = environment_variable_fits[of vals "calls th" v "unat n", OF Some True len, folded r]
      show ?thesis
      proof (cases "ret r = 0")
        case True
        then show ?thesis using Suc.prems(1) inv by (simp add: Let_def split: if_splits)
      next
        case nz: False
        show ?thesis
        proof (cases "unat n = length v + 1")
          case True
          then have "s = resize (length v) (store (v @ [NUL]) (resize (unat n) buf))"
              and "th' = th1"
            using Suc.prems(1) inv nz f by (simp_all add: Let_def)
          then have s: "s = v" and c: "calls th' - 2 = calls th - 1"
            using th1 True by (simp_all add: resize_store)
          show ?thesis
            unfolding c s using Suc.prems(3,4) True by auto
        next
          case False
          then have run: "GetEnvironmentVariableValue_loop fuel ?F th1
                       (store (written r) (resize (unat n) buf)) (ret r)
                     = Some (Inr (Some s), th')"
            using Suc.prems(1) inv nz f by (simp add: Let_def)
          have "unat (ret r) = length v \<or> unat (ret r) = length v + 1"
            using f(1) by simp
          from Suc.IH[OF run pos1 here this] show ?thesis .
        qed
      qed
    next
      case False
      note f = environment_variable_small[of vals "calls th" v "unat n", OF Some False len, folded r]
      have nz: "ret r \<noteq> 0" using f(1) by auto
      have "unat n \<noteq> unat (ret r + 1)" using f(2) False by simp
      then have run: "GetEnvironmentVariableValue_loop fuel ?F th1
                   (store (written r) (resize (unat n) buf)) (ret r)
                 = Some (Inr (Some s), th')"
        using Suc.prems(1) inv nz by (simp add: Let_def)
      have "unat (ret r) = length v \<or> unat (ret r) = length v + 1"
        using f(1) by simp
      from Suc.IH[OF run pos1 here this] show ?thesis .
    qed
  qed
qed

lemma GetEnvironmentVariableValue_loop_set:
  assumes "GetEnvironmentVariableValue_loop fuel (environment_variable vals) th buf n
             = Some (res, th')"
    and "\<forall>k\<ge>calls th. \<exists>w. vals k = Some w \<and> w \<noteq> []"
    and "\<forall>k w. vals k = Some w \<longrightarrow> length w + 2 < 2 ^ 32"
  shows "\<exists>s. res = Inr (Some s)"
  using assms(1,2)
proof (induction fuel arbitrary: th buf n)
  case 0
  then show ?case by simp
next
  case (Suc fuel)
  let ?F = "environment_variable vals"
  obtain r th1 where inv: "invoke ?F th (unat n) = (r, th1)"
    by (cases "invoke ?F th (unat n)")
  have r: "r = ?F (calls th) (unat n)" and th1: "calls th1 = Suc (calls th)"
    using inv fst_invoke[of ?F th "unat n"] calls_invoke[of ?F th "unat n"] by simp_all
  obtain v where v0: "vals (calls th) = Some v" and vne: "v \<noteq> []"
    using Suc.prems(2) by blast
  have st1: "\<forall>k\<ge>calls th1. \<exists>w. vals k = Some w \<and> w \<noteq> []"
    using Suc.prems(2) th1 by simp
  have len: "length v + 2 < 2 ^ 32" using assms(3) v0 by blast
  have nz: "ret r \<noteq> 0"
  proof (cases "length v < unat n")
    case True
    from environment_variable_fits(1)[of vals "calls th" v "unat n", OF v0 True len,
        folded r] vne show ?thesis by auto
  next
    case False
    from environment_variable_small(1)[of vals "calls th" v "unat n", OF v0 False len,
        folded r] show ?thesis by auto
  qed
  show ?case
    using Suc.prems(1) Suc.IH[OF _ st1] inv nz by (auto simp: Let_def split: if_splits)
qed

lemma ExpandEnvironmentVariables_converges:
  fixes expansions :: "wstring \<Rightarrow> nat \<Rightarrow> wstring"
  assumes "\<forall>k\<ge>N. expansions str k = e"
    and "\<forall>k. length (expansions str k) + 1 < 2 ^ 32"
  shows "\<exists>fuel s th'.
            ExpandEnvironmentVariables fuel (\<lambda>str. expanded_string (expansions str)) th str
              = Some (Inr s, th') \<and>
            s = expansions str (calls th' - 1) \<and>
            (N \<le> calls th + 1 \<longrightarrow> s = e) \<and>
            ((\<forall>j. calls th < j \<and> j < N \<longrightarrow>
                  length (expansions str j) \<noteq> length (expansions str (j - 1))) \<longrightarrow> s = e)"
proof -
  let ?F = "expanded_string (expansions str)"
  obtain r th1 where inv: "invoke ?F th 0 = (r, th1)"
    by (cases "invoke ?F th 0")
  have r: "r = ?F (calls th) 0" and th1: "calls th1 = Suc (calls th)"
    using inv fst_invoke[of ?F th 0] calls_invoke[of ?F th 0] by simp_all
  have uret: "unat (ret r) = length (expansions str (calls th)) + 1"
    unfolding r using assms(2) by (intro ret_expanded_string) blast
  then have nz: "ret r \<noteq> 0" by auto
  have top: "ExpandEnvironmentVariables fuel (\<lambda>str. expanded_string (expansions str)) th str
       = ExpandEnvironmentVariables_loop fuel ?F th1 [] (ret r)" for fuel
    using inv nz by (simp add: ExpandEnvironmentVariables_def Let_def)
  have "expansions str N = e" using assms(1) by simp
  then have "length e + 1 < 2 ^ 32" using assms(2) by blast
  from ExpandEnvironmentVariables_loop_terminates[OF assms(1) this, of th1 "[]" "ret r"]
  obtain fuel res0 where "ExpandEnvironmentVariables_loop fuel ?F th1 [] (ret r) = Some res0"
    by blast
  then obtain fuel res th' where
    run: "ExpandEnvironmentVariables_loop fuel ?F th1 [] (ret r) = Some (res, th')"
    by (cases res0) blast
  from ExpandEnvironmentVariables_loop_value[OF run assms(2)] obtain s where s: "res = Inr s"
    by blast
  from ExpandEnvironmentVariables_loop_sound[OF run[unfolded s] assms(2)]
  have snd: "s = expansions str (calls th' - 1)" and lt: "calls th1 < calls th'"
    by simp_all
  have pos: "0 < calls th1"
    and prev: "unat (ret r) = length (expansions str (calls th1 - 1)) + 1"
    using th1 uret by simp_all
  from ExpandEnvironmentVariables_loop_exit[OF run[unfolded s] assms(2) pos prev]
  have same: "length (expansions str (calls th' - 1)) = length (expansions str (calls th' - 2))" .
  have early: "N \<le> calls th + 1 \<longrightarrow> s = e"
    using snd lt th1 assms(1) by auto
  have noticed: "s = e"
    if h: "\<forall>j. calls th < j \<and> j < N \<longrightarrow>
                length (expansions str j) \<noteq> length (expansions str (j - 1))"
  proof -
    let ?j = "calls th' - 1"
    have j: "calls th < ?j" and jm: "?j - 1 = calls th' - 2"
      using lt th1 by simp_all
    have "\<not> ?j < N"
    proof
      assume "?j < N"
      with h j have "length (expansions str ?j) \<noteq> length (expansions str (?j - 1))" by blast
      with same jm show False by simp
    qed
    then have "N \<le> ?j" by simp
    with assms(1) snd show ?thesis by simp
  qed
  have "ExpandEnvironmentVariables fuel (\<lambda>str. expanded_string (expansions str)) th str
        = Some (Inr s, th')"
    using top run s by simp
  with snd early noticed show ?thesis
    by blast
qed

lemma GetEnvironmentVariableValue_converges:
  fixes environment :: "wstring \<Rightarrow> nat \<Rightarrow> wstring option"
  assumes "\<forall>k\<ge>N. environment str k = x"
    and "\<forall>k w. environment str k = Some w \<longrightarrow> length w + 2 < 2 ^ 32"
  shows "\<exists>fuel res th'.
            GetEnvironmentVariableValue fuel (\<lambda>str. environment_variable (environment str)) th str
              = Some (res, th') \<and>
            (\<forall>s. res = Inr (Some s) \<longrightarrow> s \<noteq> [] \<and> environment str (calls th' - 1) = Some s) \<and>
            (N \<le> calls th + 1 \<and> (\<exists>w. environment str (calls th) = Some w \<and> w \<noteq> []) \<and>
             (\<exists>v. x = Some v \<and> v \<noteq> []) \<longrightarrow> res = Inr x) \<and>
            ((\<forall>k\<ge>calls th. \<exists>w. environment str k = Some w \<and> w \<noteq> []) \<and>
             (\<forall>j a b. calls th < j \<and> j < N \<and> environment str j = Some a \<and>
                      environment str (j - 1) = Some b \<longrightarrow>
                      length a \<noteq> length b \<and> length a + 1 \<noteq> length b) \<longrightarrow> res = Inr x)"
proof -
  let ?F = "environment_variable (environment str)"
  let ?G = "GetEnvironmentVariableValue"
  let ?W = "\<lambda>str. environment_variable (environment str)"
  let ?set = "\<forall>k\<ge>calls th. \<exists>w. environment str k = Some w \<and> w \<noteq> []"
  let ?noticed = "\<forall>j a b. calls th < j \<and> j < N \<and> environment str j = Some a \<and>
                      environment str (j - 1) = Some b \<longrightarrow>
                      length a \<noteq> length b \<and> length a + 1 \<noteq> length b"
  obtain r th1 where inv: "invoke ?F th 0 = (r, th1)"
    by (cases "invoke ?F th 0")
  have r: "r = ?F (calls th) 0" and th1: "calls th1 = Suc (calls th)"
    using inv fst_invoke[of ?F th 0] calls_invoke[of ?F th 0] by simp_all
  have "environment str N = x" using assms(1) by simp
  then have bound: "\<forall>w. x = Some w \<longrightarrow> length w + 2 < 2 ^ 32"
    using assms(2) by blast
  have probe: "unat (ret r) = length w + 1"
    if "environment str (calls th) = Some w" for w
  proof -
    have "length w + 2 < 2 ^ 32" using assms(2) that by blast
    from environment_variable_small(1)[of "environment str" "calls th" w 0, OF that _ this,
        folded r]
    show ?thesis by simp
  qed
  show ?thesis
  proof (cases "ret r = 0 \<or> ret r = 1")
    case True
    have early: "\<exists>res. ?G 0 ?W th str = Some (res, th1) \<and> (\<forall>s. res \<noteq> Inr (Some s))"
      using True inv by (auto simp: GetEnvironmentVariableValue_def Let_def)
    have none: "\<not> (\<exists>w. environment str (calls th) = Some w \<and> w \<noteq> [])"
    proof
      assume "\<exists>w. environment str (calls th) = Some w \<and> w \<noteq> []"
      then obtain w where w: "environment str (calls th) = Some w" "w \<noteq> []" by blast
      from probe[OF w(1)] True w(2) show False by auto
    qed
    then have "\<not> ?set" by auto
    moreover from early obtain res where
      e: "?G 0 ?W th str = Some (res, th1)" "\<forall>s. res \<noteq> Inr (Some s)"
      by blast
    ultimately have "?G 0 ?W th str = Some (res, th1) \<and>
      (\<forall>s. res = Inr (Some s) \<longrightarrow> s \<noteq> [] \<and> environment str (calls th1 - 1) = Some s) \<and>
      (N \<le> calls th + 1 \<and> (\<exists>w. environment str (calls th) = Some w \<and> w \<noteq> []) \<and>
       (\<exists>v. x = Some v \<and> v \<noteq> []) \<longrightarrow> res = Inr x) \<and>
      (?set \<and> ?noticed \<longrightarrow> res = Inr x)"
      using none by blast
    then show ?thesis by (intro exI)
  next
    case False
    then have top: "?G fuel ?W th str = GetEnvironmentVariableValue_loop fuel ?F th1 [] (ret r)"
      for fuel
      using inv by (simp add: GetEnvironmentVariableValue_def Let_def)
    from GetEnvironmentVariableValue_loop_terminates[OF assms(1) bound, of th1 "[]" "ret r"]
    obtain fuel res0 where "GetEnvironmentVariableValue_loop fuel ?F th1 [] (ret r) = Some res0"
      by blast
    then obtain fuel res th' where
      run: "GetEnvironmentVariableValue_loop fuel ?F th1 [] (ret r) = Some (res, th')"
      by (cases res0) blast
    have a: "s \<noteq> [] \<and> environment str (calls th' - 1) = Some s" if "res = Inr (Some s)" for s
      using GetEnvironmentVariableValue_loop_sound[OF run[unfolded that] assms(2)]
        GetEnvironmentVariableValue_loop_nonempty[OF run[unfolded that]] by simp
    have b: "res = Inr x" if n: "N \<le> calls th + 1" and v: "x = Some v" "v \<noteq> []" for v
    proof -
      have st: "\<forall>k\<ge>calls th1. environment str k = Some v"
        using assms(1) n th1 v(1) by simp
      have len: "length v + 2 < 2 ^ 32" using bound v(1) by simp
      from GetEnvironmentVariableValue_loop_value[OF run st v(2) len]
      obtain s where s: "res = Inr (Some s)" by blast
      from GetEnvironmentVariableValue_loop_sound[OF run[unfolded s] assms(2)]
      have "environment str (calls th' - 1) = Some s" "calls th1 < calls th'" by simp_all
      then show ?thesis using st s v(1) by auto
    qed
    have c: "res = Inr x" if set: ?set and h: ?noticed
    proof -
      obtain w where w: "environment str (calls th) = Some w" using set by blast
      have st1: "\<forall>k\<ge>calls th1. \<exists>w. environment str k = Some w \<and> w \<noteq> []"
        using set th1 by simp
      from GetEnvironmentVariableValue_loop_set[OF run st1 assms(2)]
      obtain s where s: "res = Inr (Some s)" by blast
      from GetEnvironmentVariableValue_loop_sound[OF run[unfolded s] assms(2)]
      have last: "environment str (calls th' - 1) = Some s" and lt: "calls th1 < calls th'"
        by simp_all
      have pos: "0 < calls th1" and prev: "environment str (calls th1 - 1) = Some w"
        and size: "unat (ret r) = length w \<or> unat (ret r) = length w + 1"
        using th1 w probe[OF w] by simp_all
      from GetEnvironmentVariableValue_loop_exit[OF run[unfolded s] assms(2) pos prev size]
      obtain b where b: "environment str (calls th' - 2) = Some b"
        and same: "length s = length b \<or> length s + 1 = length b"
        by blast
      let ?j = "calls th' - 1"
      have j: "calls th < ?j" and jm: "?j - 1 = calls th' - 2"
        using lt th1 by simp_all
      have "\<not> ?j < N"
      proof
        assume "?j < N"
        with h j last b jm have "length s \<noteq> length b \<and> length s + 1 \<noteq> length b"
          by (metis)
        with same show False by simp
      qed
      then have "N \<le> ?j" by simp
      with assms(1) last have "x = Some s" by simp
      with s show ?thesis by simp
    qed
    have "?G fuel ?W th str = Some (res, th')" using top run by simp
    then have "?G fuel ?W th str = Some (res, th') \<and>
      (\<forall>s. res = Inr (Some s) \<longrightarrow> s \<noteq> [] \<and> environment str (calls th' - 1) = Some s) \<and>
      (N \<le> calls th + 1 \<and> (\<exists>w. environment str (calls th) = Some w \<and> w \<noteq> []) \<and>
       (\<exists>v. x = Some v \<and> v \<noteq> []) \<longrightarrow> res = Inr x) \<and>
      (?set \<and> ?noticed \<longrightarrow> res = Inr x)"
      using a b c by auto
    then show ?thesis by (intro exI)
  qed
qed

text \<open>
  Claim C4, as the code has it. Let the value behind the facility change from call to
  call and be the same from the \<open>N\<close>-th call of the thread on. Then both retry loops
  end: some number of iterations suffices. The string \<open>ExpandEnvironmentVariables\<close>
  returns is exactly the value the facility held at the last call made, complete and
  without the terminator. It is the stable value \<open>e\<close> when the value settled no later
  than between the probe and the first fill, and also when every change before it
  settles changes the length of the value, however many changes there are: the loop
  leaves only when two calls in a row report the same size. Whenever
  \<open>GetEnvironmentVariableValue\<close> returns a string, that string is non-empty and is
  exactly the value held at the last call made. It returns the stable value when the
  probe saw a non-empty value and the variable settled on a non-empty value no later
  than the first fill, and also when the variable is set and non-empty at every call and
  every change before it settles makes the value neither as long as, nor one character
  shorter than, the value before.
\<close>

theorem retry_loop_converges:
  fixes expansions :: "wstring \<Rightarrow> nat \<Rightarrow> wstring"
    and environment :: "wstring \<Rightarrow> nat \<Rightarrow> wstring option"
  assumes "\<forall>k\<ge>N. expansions str k = e"
    and "\<forall>k. length (expansions str k) + 1 < 2 ^ 32"
    and "\<forall>k\<ge>N. environment str k = x"
    and "\<forall>k w. environment str k = Some w \<longrightarrow> length w + 2 < 2 ^ 32"
  shows "(\<exists>fuel s th'.
            ExpandEnvironmentVariables fuel (\<lambda>str. expanded_string (expansions str)) th str
              = Some (Inr s, th') \<and>
            s = expansions str (calls th' - 1) \<and>
            (N \<le> calls th + 1 \<longrightarrow> s = e) \<and>
            ((\<forall>j. calls th < j \<and> j < N \<longrightarrow>
                  length (expansions str j) \<noteq> length (expansions str (j - 1))) \<longrightarrow> s = e)) \<and>
         (\<exists>fuel res th'.
            GetEnvironmentVariableValue fuel (\<lambda>str. environment_variable (environment str)) th str
              = Some (res, th') \<and>
            (\<forall>s. res = Inr (Some s) \<longrightarrow> s \<noteq> [] \<and> environment str (calls th' - 1) = Some s) \<and>
            (N \<le> calls th + 1 \<and> (\<exists>w. environment str (calls th) = Some w \<and> w \<noteq> []) \<and>
             (\<exists>v. x = Some v \<and> v \<noteq> []) \<longrightarrow> res = Inr x) \<and>
            ((\<forall>k\<ge>calls th. \<exists>w. environment str k = Some w \<and> w \<noteq> []) \<and>
             (\<forall>j a b. calls th < j \<and> j < N \<and> environment str j = Some a \<and>
                      environment str (j - 1) = Some b \<longrightarrow>
                      length a \<noteq> length b \<and> length a + 1 \<noteq> length b) \<longrightarrow> res = Inr x))"
  using ExpandEnvironmentVariables_converges[of N expansions str e th, OF assms(1,2)]
    GetEnvironmentVariableValue_converges[of N environment str x th, OF assms(3,4)]
  by (rule conjI)

theorem retry_loop_converges_witness:
  "(\<exists>fuel th'. ExpandEnvironmentVariables fuel
       (\<lambda>str. expanded_string (twice_grown_expansion str))
       thread0 ''TEMP'' = Some (Inr ''abcdef'', th')) \<and>
   (\<exists>fuel th'. GetEnvironmentVariableValue fuel
       (\<lambda>str. environment_variable (twice_grown_variable str))
       thread0 ''TEMP'' = Some (Inr (Some ''abcdef''), th'))"
proof -
  have h1: "\<forall>k\<ge>2. twice_grown_expansion ''TEMP'' k = ''abcdef''"
    and h2: "\<forall>k. length (twice_grown_expansion ''TEMP'' k) + 1 < 2 ^ 32"
    and h3: "\<forall>k\<ge>2. twice_grown_variable ''TEMP'' k = Some ''abcdef''"
    and h4: "\<forall>k w. twice_grown_variable ''TEMP'' k = Some w \<longrightarrow> length w + 2 < 2 ^ 32"
    by (auto simp: twice_grown_expansion_def twice_grown_variable_def)
  have one: "j = 1" if "calls thread0 < j \<and> j < 2" for j :: nat
    using that by (simp add: thread0_def)
  have p: "\<forall>j. calls thread0 < j \<and> j < 2 \<longrightarrow>
             length (twice_grown_expansion ''TEMP'' j)
               \<noteq> length (twice_grown_expansion ''TEMP'' (j - 1))"
  proof (intro allI impI)
    fix j :: nat
    assume "calls thread0 < j \<and> j < 2"
    from one[OF this] show "length (twice_grown_expansion ''TEMP'' j)
               \<noteq> length (twice_grown_expansion ''TEMP'' (j - 1))"
      by (simp add: twice_grown_expansion_def)
  qed
  have q: "\<forall>k\<ge>calls thread0. \<exists>w. twice_grown_variable ''TEMP'' k = Some w \<and> w \<noteq> []"
    by (simp add: twice_grown_variable_def)
  have q': "\<forall>j a b. calls thread0 < j \<and> j < 2 \<and> twice_grown_variable ''TEMP'' j = Some a \<and>
               twice_grown_variable ''TEMP'' (j - 1) = Some b \<longrightarrow>
               length a \<noteq> length b \<and> length a + 1 \<noteq> length b"
  proof (intro allI impI)
    fix j :: nat and a b
    assume h: "calls thread0 < j \<and> j < 2 \<and> twice_grown_variable ''TEMP'' j = Some a \<and>
               twice_grown_variable ''TEMP'' (j - 1) = Some b"
    then have "j = 1" using one by blast
    with h have "a = ''abcd''" and "b = ''ab''"
      by (simp_all add: twice_grown_variable_def)
    then show "length a \<noteq> length b \<and> length a + 1 \<noteq> length b" by simp
  qed
  note both = retry_loop_converges[of 2 twice_grown_expansion "''TEMP''" "''abcdef''"
      twice_grown_variable "Some ''abcdef''" thread0, OF h1 h2 h3 h4]
  from both[THEN conjunct1] obtain fuel s th' where
    "ExpandEnvironmentVariables fuel (\<lambda>str. expanded_string (twice_grown_expansion str))
       thread0 ''TEMP'' = Some (Inr s, th')"
    and "(\<forall>j. calls thread0 < j \<and> j < 2 \<longrightarrow>
             length (twice_grown_expansion ''TEMP'' j)
               \<noteq> length (twice_grown_expansion ''TEMP'' (j - 1))) \<longrightarrow> s = ''abcdef''"
    by blast
  with p have a: "ExpandEnvironmentVariables fuel
       (\<lambda>str. expanded_string (twice_grown_expansion str))
       thread0 ''TEMP'' = Some (Inr ''abcdef'', th')"
    by simp
  from both[THEN conjunct2] obtain fuel2 res th2 where
    "GetEnvironmentVariableValue fuel2 (\<lambda>str. environment_variable (twice_grown_variable str))
       thread0 ''TEMP'' = Some (res, th2)"
    and "(\<forall>k\<ge>calls thread0. \<exists>w. twice_grown_variable ''TEMP'' k = Some w \<and> w \<noteq> []) \<and>
         (\<forall>j a b. calls thread0 < j \<and> j < 2 \<and> twice_grown_variable ''TEMP'' j = Some a \<and>
               twice_grown_variable ''TEMP'' (j - 1) = Some b \<longrightarrow>
               length a \<noteq> length b \<and> length a + 1 \<noteq> length b) \<longrightarrow>
         res = Inr (Some ''abcdef'')"
    by blast
  with q q' have b: "GetEnvironmentVariableValue fuel2
       (\<lambda>str. environment_variable (twice_grown_variable str)) thread0 ''TEMP''
       = Some (Inr (Some ''abcdef''), th2)"
    by simp
  from a b show ?thesis by (intro conjI exI)
qed

text \<open>
  Claim C4 as stated fails. The expansion is \<open>ab\<close> at the first two calls and \<open>abcdef\<close>
  from the third call on, so the responses settle on \<open>abcdef\<close>. The probe and the first
  fill both see \<open>ab\<close>, the sizes agree and \<open>ExpandEnvironmentVariables\<close> returns \<open>ab\<close>
  after two calls, whatever the bound on the iterations: the value it returns is the one
  of its last call, not the one the facility settles on later.
\<close>

theorem late_change_returns_earlier_value:
  "late_expansion ''TEMP'' 0 = ''ab'' \<and> late_expansion ''TEMP'' 1 = ''ab'' \<and>
   late_expansion ''TEMP'' 2 = ''abcdef'' \<and> late_expansion ''TEMP'' 3 = ''abcdef'' \<and>
   ExpandEnvironmentVariables 1 (\<lambda>str. expanded_string (late_expansion str)) thread0 ''TEMP''
     = Some (Inr ''ab'', \<lparr>calls = 2, last_error = ERROR_SUCCESS\<rparr>) \<and>
   ExpandEnvironmentVariables (Suc (Suc (Suc 0))) (\<lambda>str. expanded_string (late_expansion str))
       thread0 ''TEMP''
     = Some (Inr ''ab'', \<lparr>calls = 2, last_error = ERROR_SUCCESS\<rparr>)"
  by (simp add: ExpandEnvironmentVariables_def expanded_string_def late_expansion_def
      thread0_def invoke_def resize_def store_def Let_def GetLastError_def NUL_def)

subsection \<open>What a failure carries\<close>

text \<open>
  Claim C5, evaluated where it fails. The probe of \<open>GetEnvironmentVariableValue\<close>
  reports a size of 5; the fill call then fails with error code 8. The exception carries
  the code 8, but under the name \<open>ExpandEnvironmentStringsW\<close>, a facility this function
  never calls, where the probe of the same function names \<open>GetEnvironmentVariableW\<close>.
\<close>

theorem GetEnvironmentVariableValue_fill_failure_name:
  "GetEnvironmentVariableValue 1 failing_fill thread0 ''PATH''
     = Some (Inl (system_error 8 ''ExpandEnvironmentStringsW''), \<lparr>calls = 2, last_error = 8\<rparr>)"
  by (simp add: GetEnvironmentVariableValue_def failing_fill_def thread0_def invoke_def Let_def
      GetLastError_def ERROR_ENVVAR_NOT_FOUND_def)

subsection \<open>The library search directory\<close>

lemma GetDllDirectoryValue_loop_error:
  "GetDllDirectoryValue_loop fuel F th buf n = Some (Inl (system_error c nm), th') \<Longrightarrow>
   c \<noteq> ERROR_SUCCESS \<and> c = GetLastError th'"
proof (induction fuel arbitrary: th buf n)
  case 0
  then show ?case by simp
next
  case (Suc fuel)
  then show ?case
    by (auto simp: Let_def split: prod.splits if_splits)
qed

text \<open>
  Claim C6. When the probe of \<open>GetDllDirectoryValue\<close> reports size 0 and the facility
  sets no error code (or sets \<open>ERROR_SUCCESS\<close>), the function returns the empty string,
  whatever the last error of the thread was before the call. When the probe reports size 0
  and the facility sets an error code other than \<open>ERROR_SUCCESS\<close>, a \<open>system_error\<close>
  with that code is thrown. And whenever the function throws, probe or loop, the code it
  carries is not \<open>ERROR_SUCCESS\<close>: a size of zero alone is never a failure.
\<close>

theorem GetDllDirectoryValue_zero_size:
  "(ret (G (calls th) 0) = 0 \<and> (err (G (calls th) 0) = None \<or> err (G (calls th) 0) = Some ERROR_SUCCESS)
      \<longrightarrow> (\<exists>th'. GetDllDirectoryValue fuel G th = Some (Inr [], th'))) \<and>
   (ret (G (calls th) 0) = 0 \<and> err (G (calls th) 0) = Some e \<and> e \<noteq> ERROR_SUCCESS
      \<longrightarrow> (\<exists>th'. GetDllDirectoryValue fuel G th = Some (Inl (system_error e ''GetDllDirectory''), th'))) \<and>
   (GetDllDirectoryValue fuel G th = Some (Inl (system_error c nm), th1)
      \<longrightarrow> c \<noteq> ERROR_SUCCESS \<and> c = GetLastError th1)"
proof (intro conjI impI)
  assume "ret (G (calls th) 0) = 0 \<and>
    (err (G (calls th) 0) = None \<or> err (G (calls th) 0) = Some ERROR_SUCCESS)"
  then show "\<exists>th'. GetDllDirectoryValue fuel G th = Some (Inr [], th')"
    by (auto simp: GetDllDirectoryValue_def invoke_def Let_def SetLastError_def GetLastError_def)
next
  assume "ret (G (calls th) 0) = 0 \<and> err (G (calls th) 0) = Some e \<and> e \<noteq> ERROR_SUCCESS"
  then show "\<exists>th'. GetDllDirectoryValue fuel G th
      = Some (Inl (system_error e ''GetDllDirectory''), th')"
    by (auto simp: GetDllDirectoryValue_def invoke_def Let_def SetLastError_def GetLastError_def)
next
  assume a: "GetDllDirectoryValue fuel G th = Some (Inl (system_error c nm), th1)"
  then show "c \<noteq> ERROR_SUCCESS" "c = GetLastError th1"
    by (auto simp: GetDllDirectoryValue_def Let_def split: prod.splits if_splits
        dest: GetDllDirectoryValue_loop_error)
qed

theorem GetDllDirectoryValue_zero_size_witness:
  "GetDllDirectoryValue 0 unset_dll_directory \<lparr>calls = 0, last_error = 5\<rparr>
     = Some (Inr [], \<lparr>calls = 1, last_error = ERROR_SUCCESS\<rparr>) \<and>
   GetDllDirectoryValue 0 failing_dll_directory thread0
     = Some (Inl (system_error 5 ''GetDllDirectory''), \<lparr>calls = 1, last_error = 5\<rparr>)"
  using GetDllDirectoryValue_zero_size[of unset_dll_directory "\<lparr>calls = 0, last_error = 5\<rparr>"
      0 5 5 "''GetDllDirectory''" "\<lparr>calls = 1, last_error = 5\<rparr>"]
    GetDllDirectoryValue_zero_size[of failing_dll_directory thread0
      5 0 5 "''GetDllDirectory''" "\<lparr>calls = 1, last_error = 5\<rparr>"]
  by (auto simp: unset_dll_directory_def failing_dll_directory_def thread0_def
      GetDllDirectoryValue_def invoke_def SetLastError_def GetLastError_def ERROR_SUCCESS_def)


section \<open>Properties of the directory synchronizer\<close>

subsection \<open>Paths and keys\<close>

lemma key_of_snoc: "plain n \<Longrightarrow> key_of (p @ [n]) = key_of p @ [n]"
  by (simp add: key_of_def descend_def plain_def)

lemma length_foldl_descend: "length (foldl descend k p) \<le> length k + length p"
proof (induction p arbitrary: k)
  case Nil
  then show ?case by simp
next
  case (Cons c p)
  have "length (descend k c) \<le> length k + 1"
    by (auto simp: descend_def)
  with Cons[of "descend k c"] show ?case by simp
qed

lemma length_key_of: "length (key_of p) \<le> length p"
  using length_foldl_descend[of "[]" p] by (simp add: key_of_def)

lemma length_native: "length p \<le> length (native p) + 1"
  by (induction p rule: native.induct) auto

subsection \<open>The primitives\<close>

lemma map_of_stamp:
  "map_of (stamp k time fs) q =
     (if q = k then map_option (\<lambda>nd. nd\<lparr>mtime := time\<rparr>) (map_of fs k) else map_of fs q)"
  by (auto simp: stamp_def update_conv' split: option.splits)

lemma CreateDirectory_refusal_None:
  "CreateDirectory_refusal w p = None \<longleftrightarrow>
     p \<noteq> [] \<and> length (native (key_of p)) < path_limit w \<and> key_of p \<notin> denied w \<and>
     lookup w (key_of p) = None \<and> key_of p \<noteq> [] \<and> dir_at w (parent_path (key_of p))"
  by (auto simp: CreateDirectory_refusal_def Let_def)

lemma fst_CreateDirectory:
  "fst (CreateDirectory w p) \<longleftrightarrow> CreateDirectory_refusal w p = None"
  by (simp add: CreateDirectory_def fail_def succeed_def Let_def split: option.splits)

lemma CreateDirectory_success_iff:
  "fst (CreateDirectory w p) \<longleftrightarrow>
     p \<noteq> [] \<and> length (native (key_of p)) < path_limit w \<and> key_of p \<notin> denied w \<and>
     lookup w (key_of p) = None \<and> key_of p \<noteq> [] \<and> dir_at w (parent_path (key_of p))"
  by (simp only: fst_CreateDirectory CreateDirectory_refusal_None)

lemma CreateDirectory_success:
  "fst (CreateDirectory w p) \<Longrightarrow>
   CreateDirectory w p =
     (True, w\<lparr>files := AList.update (key_of p) \<lparr>ftype = directory, content = [], mtime = clock w\<rparr>
                         (stamp (parent_path (key_of p)) (clock w) (files w)),
              clock := clock w + 1,
              journal := journal w @ [CreateDirectory_call p None]\<rparr>)"
  by (simp add: CreateDirectory_def fail_def succeed_def Let_def split: option.splits)

lemma CreateDirectory_failure:
  "\<not> fst (CreateDirectory w p) \<Longrightarrow>
   \<exists>e. CreateDirectory w p =
         (False, w\<lparr>last_err := e, journal := journal w @ [CreateDirectory_call p (Some e)]\<rparr>)"
  by (auto simp: CreateDirectory_def fail_def succeed_def Let_def split: option.splits)

lemma lookup_CreateDirectory:
  "lookup (snd (CreateDirectory w p)) q =
     (if fst (CreateDirectory w p)
      then (if q = key_of p then Some \<lparr>ftype = directory, content = [], mtime = clock w\<rparr>
            else if q = parent_path (key_of p)
            then map_option (\<lambda>nd. nd\<lparr>mtime := clock w\<rparr>) (lookup w q)
            else lookup w q)
      else lookup w q)"
  by (simp add: CreateDirectory_def fail_def succeed_def Let_def lookup_def update_conv'
      map_of_stamp split: option.splits)

lemma CopyFile_source_Inr:
  "(\<exists>nd. CopyFile_source w a b False = Inr nd) \<longleftrightarrow>
     a \<noteq> [] \<and> b \<noteq> [] \<and> (\<exists>nd. lookup w (key_of a) = Some nd \<and> ftype nd = regular) \<and>
     length (native (key_of b)) < path_limit w \<and> key_of a \<noteq> key_of b \<and>
     key_of a \<notin> denied w \<and> key_of b \<notin> denied w \<and>
     key_of b \<noteq> [] \<and> dir_at w (parent_path (key_of b)) \<and>
     (\<forall>old. lookup w (key_of b) = Some old \<longrightarrow> ftype old = regular)"
  by (auto simp: CopyFile_source_def Let_def split: option.splits)

lemma CopyFile_source_node:
  "CopyFile_source w a b f = Inr nd \<Longrightarrow> lookup w (key_of a) = Some nd"
  by (auto simp: CopyFile_source_def Let_def split: option.splits if_splits)

lemma fst_CopyFile:
  "fst (CopyFile w a b f) \<longleftrightarrow> (\<exists>nd. CopyFile_source w a b f = Inr nd)"
  by (simp add: CopyFile_def fail_def succeed_def Let_def split: sum.splits)

lemma CopyFile_success_iff:
  "fst (CopyFile w a b False) \<longleftrightarrow>
     a \<noteq> [] \<and> b \<noteq> [] \<and> (\<exists>nd. lookup w (key_of a) = Some nd \<and> ftype nd = regular) \<and>
     length (native (key_of b)) < path_limit w \<and> key_of a \<noteq> key_of b \<and>
     key_of a \<notin> denied w \<and> key_of b \<notin> denied w \<and>
     key_of b \<noteq> [] \<and> dir_at w (parent_path (key_of b)) \<and>
     (\<forall>old. lookup w (key_of b) = Some old \<longrightarrow> ftype old = regular)"
  by (simp only: fst_CopyFile CopyFile_source_Inr)

lemma CopyFile_success:
  "fst (CopyFile w a b f) \<Longrightarrow>
   \<exists>fs. CopyFile w a b f =
          (True, w\<lparr>files := fs, clock := clock w + 1,
                   journal := journal w @ [CopyFile_call a b None]\<rparr>)"
  by (auto simp: CopyFile_def fail_def succeed_def Let_def split: sum.splits)

lemma CopyFile_failure:
  "\<not> fst (CopyFile w a b f) \<Longrightarrow>
   \<exists>e. CopyFile w a b f =
         (False, w\<lparr>last_err := e, journal := journal w @ [CopyFile_call a b (Some e)]\<rparr>)"
  by (auto simp: CopyFile_def fail_def succeed_def Let_def split: sum.splits)

lemma lookup_CopyFile:
  "lookup (snd (CopyFile w a b f)) q =
     (if fst (CopyFile w a b f)
      then (if q = key_of b then lookup w (key_of a)
            else if q = parent_path (key_of b) \<and> lookup w (key_of b) = None
            then map_option (\<lambda>nd. nd\<lparr>mtime := clock w\<rparr>) (lookup w q)
            else lookup w q)
      else lookup w q)"
proof (cases "CopyFile_source w a b f")
  case (Inl e)
  then show ?thesis
    by (simp add: CopyFile_def fail_def Let_def lookup_def)
next
  case (Inr nd)
  from CopyFile_source_node[OF this] have "map_of (files w) (key_of a) = Some nd"
    by (simp add: lookup_def)
  then show ?thesis using Inr
    by (simp add: CopyFile_def succeed_def Let_def lookup_def update_conv' map_of_stamp)
qed

lemma log_CreateDirectory [simp]: "log (snd (CreateDirectory w p)) = log w"
  by (simp add: CreateDirectory_def fail_def succeed_def Let_def split: option.splits)

lemma log_CopyFile [simp]: "log (snd (CopyFile w a b f)) = log w"
  by (simp add: CopyFile_def fail_def succeed_def Let_def split: sum.splits)

lemma limits_CreateDirectory [simp]:
  "denied (snd (CreateDirectory w p)) = denied w"
  "path_limit (snd (CreateDirectory w p)) = path_limit w"
  by (simp_all add: CreateDirectory_def fail_def succeed_def Let_def split: option.splits)

lemma limits_CopyFile [simp]:
  "denied (snd (CopyFile w a b f)) = denied w"
  "path_limit (snd (CopyFile w a b f)) = path_limit w"
  by (simp_all add: CopyFile_def fail_def succeed_def Let_def split: sum.splits)

subsection \<open>The guard\<close>

lemma wfind_0_iff: "wfind hay str = Some 0 \<longleftrightarrow> prefix str hay"
  by (cases hay) auto

text \<open>
  Claim C2. If the destination string begins with the source string,
  \<open>CopyToDirectory\<close> returns \<open>E_FAIL\<close> and leaves the whole state as it was: nothing is
  cleaned, created or copied, whatever the clean flag. If it does not, the result is never
  \<open>E_FAIL\<close>: the function goes on to the clean step and the mirror step, and returns
  \<open>S_OK\<close> or lets an exception of the filesystem library through.
\<close>

theorem CopyToDirectory_guard:
  "(prefix source destination \<longrightarrow>
      CopyToDirectory fuel w destination source cleanDest = Some (Inr E_FAIL, w)) \<and>
   (\<not> prefix source destination \<longrightarrow>
      CopyToDirectory fuel w destination source cleanDest \<noteq> Some (Inr E_FAIL, w') \<and>
      CopyToDirectory fuel w destination source cleanDest =
        (case clean_destination w (path_of destination) cleanDest of
           Inl e \<Rightarrow> Some (Inl e, w)
         | Inr w1 \<Rightarrow>
             (case CopyDirTo fuel w1 (path_of source) (path_of destination) of
                None \<Rightarrow> None
              | Some (Inl e, w2) \<Rightarrow> Some (Inl e, w2)
              | Some (Inr u, w2) \<Rightarrow> Some (Inr S_OK, w2))))"
  by (auto simp: CopyToDirectory_def wfind_0_iff S_OK_def E_FAIL_def
      split: sum.splits option.splits)

theorem CopyToDirectory_guard_witness:
  "CopyToDirectory 0 stale_world ''src/bin'' ''src'' True = Some (Inr E_FAIL, stale_world) \<and>
   CopyToDirectory 2 stale_world ''dst'' ''src'' False \<noteq> Some (Inr E_FAIL, stale_world)"
proof -
  have a: "prefix ''src'' ''src/bin''" and b: "\<not> prefix ''src'' ''dst''"
    by simp_all
  from CopyToDirectory_guard[of "''src''" "''src/bin''" 0 stale_world True stale_world]
    CopyToDirectory_guard[of "''src''" "''dst''" 2 stale_world False stale_world] a b
  show ?thesis by blast
qed

text \<open>
  Claim C9. The destination \<open>C:\apple\<close> is neither the source \<open>C:\app\<close> nor inside
  it: the two paths differ in their second component. \<open>CopyToDirectory\<close> still returns
  \<open>E_FAIL\<close> and changes nothing, because the guard compares the strings.
\<close>

theorem CopyToDirectory_sibling_blocked:
  "CopyToDirectory fuel w apple_dir app_dir cleanDest = Some (Inr E_FAIL, w) \<and>
   path_of apple_dir = [''C:'', ''apple''] \<and> path_of app_dir = [''C:'', ''app''] \<and>
   path_of apple_dir \<noteq> path_of app_dir \<and> \<not> prefix (path_of app_dir) (path_of apple_dir)"
  by (simp add: CopyToDirectory_def app_dir_def apple_dir_def path_of_def is_separator_def
      preferred_separator_def)

subsection \<open>Entries and the branch for a regular file\<close>

lemma lookup_log_update [simp]: "lookup (w\<lparr>log := l\<rparr>) q = lookup w q"
  by (simp add: lookup_def)

lemma stat_log_update [simp]: "stat (w\<lparr>log := l\<rparr>) p = stat w p"
  by (simp add: stat_def)

lemma stat_Some: "stat w p = Some nd \<longleftrightarrow> p \<noteq> [] \<and> lookup w (key_of p) = Some nd"
  by (simp add: stat_def)

lemma stat_snoc: "stat w (t @ [n]) = lookup w (key_of (t @ [n]))"
  by (simp add: stat_def)

lemma is_directory_dir_at: "is_directory w p \<longleftrightarrow> p \<noteq> [] \<and> dir_at w (key_of p)"
  by (simp add: is_directory_def dir_at_def stat_def)

lemma up_to_date_no_throw:
  "stat w p \<noteq> None \<Longrightarrow> \<exists>b. up_to_date w p d = Inr b"
  by (auto simp: up_to_date_def last_write_time_def exists_def split: option.splits)

lemma up_to_date_eq:
  assumes "stat w p = Some src"
  shows "up_to_date w p d =
           Inr (case stat w d of None \<Rightarrow> False | Some dst \<Rightarrow> mtime src \<le> mtime dst)"
  using assms by (simp add: up_to_date_def exists_def last_write_time_def split: option.splits)

lemma copy_regular_file_cases:
  obtains (throw) e where "copy_regular_file w t p = (Inl e, w)"
       and "up_to_date w p (t @ filename p) = Inl e"
  | (skip) "copy_regular_file w t p = (Inr (), w)"
       and "up_to_date w p (t @ filename p) = Inr True"
  | (copied) w1 where "CopyFile w p (t @ filename p) False = (True, w1)"
       and "copy_regular_file w t p = (Inr (), w1\<lparr>log := log w1 @ [LOG_INFO ''WOW'']\<rparr>)"
       and "up_to_date w p (t @ filename p) = Inr False"
  | (failed) w1 where "CopyFile w p (t @ filename p) False = (False, w1)"
       and "copy_regular_file w t p
              = (Inr (), w1\<lparr>log := log w1 @ [LOG_LAST_ERROR (last_err w1)]\<rparr>)"
       and "up_to_date w p (t @ filename p) = Inr False"
proof (cases "up_to_date w p (t @ filename p)")
  case (Inl e)
  then show ?thesis using throw by (simp add: copy_regular_file_def Let_def)
next
  case (Inr b)
  show ?thesis
  proof (cases b)
    case True
    then show ?thesis using Inr skip by (simp add: copy_regular_file_def Let_def)
  next
    case False
    obtain ok w1 where c: "CopyFile w p (t @ filename p) False = (ok, w1)"
      by (cases "CopyFile w p (t @ filename p) False")
    show ?thesis
    proof (cases ok)
      case True
      then show ?thesis using Inr False c copied by (simp add: copy_regular_file_def Let_def)
    next
      case nok: False
      then show ?thesis using Inr False c failed by (simp add: copy_regular_file_def Let_def)
    qed
  qed
qed

lemma copy_regular_file_no_throw:
  assumes "stat w p \<noteq> None"
  shows "fst (copy_regular_file w t p) = Inr ()"
proof (cases rule: copy_regular_file_cases[of w t p])
  case (throw e)
  then show ?thesis using up_to_date_no_throw[OF assms, of "t @ filename p"] by simp
qed simp_all

text \<open>
Evaluation of the walk on a concrete filesystem.
\<close>

lemmas fs_eval = copy_regular_file_def up_to_date_def
  directory_iterator_def CopyFile_def CopyFile_source_def CreateDirectory_def
  CreateDirectory_refusal_def fail_def succeed_def stamp_def
  exists_def is_directory_def stat_def dir_at_def key_of_def descend_def plain_def
  lookup_def last_write_time_def filename_def parent_path_def Let_def
  AList.delete_eq

text \<open>
  Claim C1, as the code has it. For a regular file entry \<open>p\<close> of the source that
  names the node \<open>src\<close>, and \<open>d = target_folder / filename\<close>: if \<open>d\<close> exists and the
  last write time of the source is less than or equal to that of \<open>d\<close> (the destination
  is at least as new), the entry is skipped and the state is unchanged. Otherwise, also
  when \<open>d\<close> does not exist, \<open>CopyFile\<close> is called with overwriting allowed: when it
  succeeds \<open>d\<close> holds the bytes and the last write time of the source, a line is logged
  and no other entry changes, except that the directory in which \<open>d\<close> has been created
  gets the time of the call as its last write time; when it fails the last error is logged
  and no entry changes. The call is recorded with its outcome. It succeeds exactly when
  the source is a regular file, \<open>d\<close> is another entry whose resolved path is not too
  long, neither is refused, the target folder is a directory and \<open>d\<close> is absent or a
  regular file. In every case the loop goes on with the remaining entries.
\<close>

theorem copy_regular_file_timestamp_gate:
  assumes "stat w p = Some src"
  shows "(\<forall>dst. stat w (t @ filename p) = Some dst \<and> mtime src \<le> mtime dst \<longrightarrow>
            copy_regular_file w t p = (Inr (), w)) \<and>
         (stat w (t @ filename p) = None \<or>
          (\<exists>dst. stat w (t @ filename p) = Some dst \<and> mtime dst < mtime src) \<longrightarrow>
            (fst (CopyFile w p (t @ filename p) False) \<longrightarrow>
               (\<exists>w'. copy_regular_file w t p = (Inr (), w') \<and>
                     lookup w' (key_of (t @ filename p)) = Some src \<and>
                     (\<forall>q. q \<noteq> key_of (t @ filename p) \<longrightarrow>
                          lookup w' q =
                            (if q = parent_path (key_of (t @ filename p)) \<and>
                                stat w (t @ filename p) = None
                             then map_option (\<lambda>nd. nd\<lparr>mtime := clock w\<rparr>) (lookup w q)
                             else lookup w q)) \<and>
                     journal w' = journal w @ [CopyFile_call p (t @ filename p) None] \<and>
                     log w' = log w @ [LOG_INFO ''WOW''])) \<and>
            (\<not> fst (CopyFile w p (t @ filename p) False) \<longrightarrow>
               (\<exists>e. copy_regular_file w t p =
                      (Inr (), w\<lparr>last_err := e,
                                journal := journal w @ [CopyFile_call p (t @ filename p) (Some e)],
                                log := log w @ [LOG_LAST_ERROR e]\<rparr>)))) \<and>
         (fst (CopyFile w p (t @ filename p) False) \<longleftrightarrow>
            ftype src = regular \<and>
            length (native (key_of (t @ filename p))) < path_limit w \<and>
            key_of p \<noteq> key_of (t @ filename p) \<and>
            key_of p \<notin> denied w \<and> key_of (t @ filename p) \<notin> denied w \<and>
            key_of (t @ filename p) \<noteq> [] \<and> dir_at w (parent_path (key_of (t @ filename p))) \<and>
            (\<forall>old. stat w (t @ filename p) = Some old \<longrightarrow> ftype old = regular)) \<and>
         for_each_entry rec w t ((p, regular) # ps) =
           for_each_entry rec (snd (copy_regular_file w t p)) t ps"
proof (intro conjI allI impI)
  let ?d = "t @ filename p"
  have p: "p \<noteq> []" and src: "lookup w (key_of p) = Some src"
    using assms by (simp_all add: stat_Some)
  have d: "?d \<noteq> []" and sd: "stat w ?d = lookup w (key_of ?d)"
    using p by (simp_all add: filename_def stat_def)
  note u = up_to_date_eq[OF assms, of ?d]
  show "copy_regular_file w t p = (Inr (), w)"
    if "stat w ?d = Some dst \<and> mtime src \<le> mtime dst" for dst
    using that u by (simp add: copy_regular_file_def Let_def)
  show "fst (CopyFile w p ?d False) \<longleftrightarrow>
            ftype src = regular \<and>
            length (native (key_of ?d)) < path_limit w \<and>
            key_of p \<noteq> key_of ?d \<and>
            key_of p \<notin> denied w \<and> key_of ?d \<notin> denied w \<and>
            key_of ?d \<noteq> [] \<and> dir_at w (parent_path (key_of ?d)) \<and>
            (\<forall>old. stat w ?d = Some old \<longrightarrow> ftype old = regular)"
    using p d src sd by (simp add: CopyFile_success_iff)
  show "for_each_entry rec w t ((p, regular) # ps) =
           for_each_entry rec (snd (copy_regular_file w t p)) t ps"
    using copy_regular_file_no_throw[of w p t] assms
    by (cases "copy_regular_file w t p") auto
  assume older: "stat w ?d = None \<or> (\<exists>dst. stat w ?d = Some dst \<and> mtime dst < mtime src)"
  then have nu: "up_to_date w p ?d = Inr False"
    using u by (auto split: option.splits)
  show "\<exists>w'. copy_regular_file w t p = (Inr (), w') \<and> lookup w' (key_of ?d) = Some src \<and>
             (\<forall>q. q \<noteq> key_of ?d \<longrightarrow>
                  lookup w' q =
                    (if q = parent_path (key_of ?d) \<and> stat w ?d = None
                     then map_option (\<lambda>nd. nd\<lparr>mtime := clock w\<rparr>) (lookup w q)
                     else lookup w q)) \<and>
             journal w' = journal w @ [CopyFile_call p ?d None] \<and>
             log w' = log w @ [LOG_INFO ''WOW'']"
    if ok: "fst (CopyFile w p ?d False)"
  proof -
    obtain w1 where c: "CopyFile w p ?d False = (True, w1)"
      using ok by (cases "CopyFile w p ?d False") auto
    have l: "lookup w1 q =
               (if q = key_of ?d then lookup w (key_of p)
                else if q = parent_path (key_of ?d) \<and> lookup w (key_of ?d) = None
                then map_option (\<lambda>nd. nd\<lparr>mtime := clock w\<rparr>) (lookup w q)
                else lookup w q)" for q
      using lookup_CopyFile[of w p ?d False q] c by simp
    have g: "log w1 = log w"
      using log_CopyFile[of w p ?d False] c by simp
    have j: "journal w1 = journal w @ [CopyFile_call p ?d None]"
      using CopyFile_success[OF ok] c by auto
    have "copy_regular_file w t p = (Inr (), w1\<lparr>log := log w1 @ [LOG_INFO ''WOW'']\<rparr>)"
      using nu c by (simp add: copy_regular_file_def Let_def)
    then show ?thesis using l g j src sd by simp
  qed
  show "\<exists>e. copy_regular_file w t p =
              (Inr (), w\<lparr>last_err := e,
                        journal := journal w @ [CopyFile_call p ?d (Some e)],
                        log := log w @ [LOG_LAST_ERROR e]\<rparr>)"
    if nok: "\<not> fst (CopyFile w p ?d False)"
  proof -
    from CopyFile_failure[OF nok] obtain e where
      "CopyFile w p ?d False =
         (False, w\<lparr>last_err := e, journal := journal w @ [CopyFile_call p ?d (Some e)]\<rparr>)"
      by blast
    then have "copy_regular_file w t p =
              (Inr (), w\<lparr>last_err := e,
                        journal := journal w @ [CopyFile_call p ?d (Some e)],
                        log := log w @ [LOG_LAST_ERROR e]\<rparr>)"
      using nu by (simp add: copy_regular_file_def Let_def)
    then show ?thesis by blast
  qed
qed

theorem copy_regular_file_timestamp_gate_witness:
  "stat stale_world [''src'', ''f''] = Some \<lparr>ftype = regular, content = [1], mtime = 10\<rparr> \<and>
   (\<exists>dst. stat stale_world [''dst'', ''f''] = Some dst \<and> mtime dst < 10) \<and>
   fst (CopyFile stale_world [''src'', ''f''] [''dst'', ''f''] False) \<and>
   (\<exists>w'. copy_regular_file stale_world [''dst''] [''src'', ''f''] = (Inr (), w') \<and>
         lookup w' [''dst'', ''f''] = Some \<lparr>ftype = regular, content = [1], mtime = 10\<rparr>)"
proof -
  have a: "stat stale_world [''src'', ''f'']
             = Some \<lparr>ftype = regular, content = [1], mtime = 10\<rparr>"
    and b: "\<exists>dst. stat stale_world ([''dst''] @ filename [''src'', ''f'']) = Some dst \<and>
                  mtime dst < mtime \<lparr>ftype = regular, content = [1], mtime = 10\<rparr>"
    and c: "fst (CopyFile stale_world [''src'', ''f''] ([''dst''] @ filename [''src'', ''f'']) False)"
    by (simp_all add: stale_world_def fs_eval)
  have d: "[''dst''] @ filename [''src'', ''f''] = [''dst'', ''f'']"
    and k: "key_of [''dst'', ''f''] = [''dst'', ''f'']"
    by (simp_all add: filename_def key_of_def descend_def)
  from copy_regular_file_timestamp_gate[OF a, of "[''dst'']", THEN conjunct2, THEN conjunct1] b c
  have "\<exists>w'. copy_regular_file stale_world [''dst''] [''src'', ''f''] = (Inr (), w') \<and>
         lookup w' (key_of ([''dst''] @ filename [''src'', ''f'']))
           = Some \<lparr>ftype = regular, content = [1], mtime = 10\<rparr>"
    by blast
  then show ?thesis using a b c unfolding d k by simp
qed

text \<open>
  Claim C1 as stated fails. The destination file exists and its last write time 5 is
  less than or equal to the last write time 10 of the source file, so the claim has the
  file skipped and the destination unchanged; the mirror step copies it, and the
  destination then holds the bytes and the time of the source.
\<close>

theorem older_destination_is_overwritten:
  "lookup stale_world [''src'', ''f''] = Some \<lparr>ftype = regular, content = [1], mtime = 10\<rparr> \<and>
   lookup stale_world [''dst'', ''f''] = Some \<lparr>ftype = regular, content = [2], mtime = 5\<rparr> \<and>
   (5 :: int) \<le> 10 \<and>
   CopyDirTo 1 stale_world [''src''] [''dst''] = Some (Inr (), refreshed_world) \<and>
   lookup refreshed_world [''dst'', ''f''] = Some \<lparr>ftype = regular, content = [1], mtime = 10\<rparr>"
  by (simp add: stale_world_def refreshed_world_def fs_eval)

subsection \<open>What every step keeps\<close>

lemma preserved_refl [simp]: "preserved w w"
  by (simp add: preserved_def)

lemma preserved_trans: "preserved w1 w2 \<Longrightarrow> preserved w2 w3 \<Longrightarrow> preserved w1 w3"
  unfolding preserved_def by (metis)

lemma preserved_lookup: "preserved w w' \<Longrightarrow> lookup w q \<noteq> None \<Longrightarrow> lookup w' q \<noteq> None"
  unfolding preserved_def by fastforce

lemma preserved_dir_at: "preserved w w' \<Longrightarrow> dir_at w k \<Longrightarrow> dir_at w' k"
  unfolding preserved_def dir_at_def by (fastforce split: option.splits)

lemma preserved_is_directory: "preserved w w' \<Longrightarrow> is_directory w p \<Longrightarrow> is_directory w' p"
  using preserved_dir_at by (auto simp: is_directory_dir_at)

lemma preserved_stat: "preserved w w' \<Longrightarrow> stat w p \<noteq> None \<Longrightarrow> stat w' p \<noteq> None"
  using preserved_lookup by (auto simp: stat_def)

lemma preserved_CreateDirectory: "preserved w (snd (CreateDirectory w p))"
  unfolding preserved_def
  by (auto simp: lookup_CreateDirectory CreateDirectory_success_iff)

lemma preserved_CopyFile: "preserved w (snd (CopyFile w a b False))"
  unfolding preserved_def
  by (auto simp: lookup_CopyFile CopyFile_success_iff)

lemma logged_refl [simp]: "logged [] w w"
  by (simp add: logged_def)

lemma logged_trans: "logged cs w1 w2 \<Longrightarrow> logged ds w2 w3 \<Longrightarrow> logged (cs @ ds) w1 w3"
  by (simp add: logged_def)

lemma continues_refl [simp]: "continues w w"
  unfolding continues_def using logged_refl[of w] by (auto intro: exI[of _ "[]"])

lemma continues_trans: "continues w1 w2 \<Longrightarrow> continues w2 w3 \<Longrightarrow> continues w1 w3"
  unfolding continues_def using preserved_trans logged_trans by (metis)

lemma continues_preserved: "continues w w' \<Longrightarrow> preserved w w'"
  by (simp add: continues_def)

lemma continues_journal: "continues w w' \<Longrightarrow> \<exists>cs. journal w' = journal w @ cs"
  by (auto simp: continues_def logged_def)

lemma copy_regular_file_outcome:
  obtains (throw) e where "copy_regular_file w t p = (Inl e, w)"
       and "up_to_date w p (t @ filename p) = Inl e"
  | (skip) "copy_regular_file w t p = (Inr (), w)"
       and "up_to_date w p (t @ filename p) = Inr True"
  | (copied) w1 where "fst (CopyFile w p (t @ filename p) False)"
       and "w1 = snd (CopyFile w p (t @ filename p) False)"
       and "copy_regular_file w t p = (Inr (), w1\<lparr>log := log w @ [LOG_INFO ''WOW'']\<rparr>)"
       and "journal w1 = journal w @ [CopyFile_call p (t @ filename p) None]"
       and "up_to_date w p (t @ filename p) = Inr False"
  | (failed) e where "\<not> fst (CopyFile w p (t @ filename p) False)"
       and "copy_regular_file w t p =
              (Inr (), w\<lparr>last_err := e,
                        journal := journal w @ [CopyFile_call p (t @ filename p) (Some e)],
                        log := log w @ [LOG_LAST_ERROR e]\<rparr>)"
       and "up_to_date w p (t @ filename p) = Inr False"
proof (cases rule: copy_regular_file_cases[of w t p])
  case (throw e)
  then show ?thesis using that(1) by blast
next
  case skip
  then show ?thesis using that(2) by blast
next
  case c: (copied w1)
  then have ok: "fst (CopyFile w p (t @ filename p) False)"
    and w1: "w1 = snd (CopyFile w p (t @ filename p) False)" by simp_all
  have "log w1 = log w" using w1 by simp
  moreover have "journal w1 = journal w @ [CopyFile_call p (t @ filename p) None]"
    using CopyFile_success[OF ok] c(1) by auto
  ultimately show ?thesis using that(3)[OF ok w1] c(2,3) by simp
next
  case f: (failed w1)
  then have nok: "\<not> fst (CopyFile w p (t @ filename p) False)" by simp
  from CopyFile_failure[OF nok] obtain e where
    "CopyFile w p (t @ filename p) False =
       (False, w\<lparr>last_err := e,
                 journal := journal w @ [CopyFile_call p (t @ filename p) (Some e)]\<rparr>)"
    by blast
  with f(1) have "w1 = w\<lparr>last_err := e,
                 journal := journal w @ [CopyFile_call p (t @ filename p) (Some e)]\<rparr>"
    by simp
  then show ?thesis using that(4)[OF nok, of e] f(2,3) by simp
qed

lemma continues_CreateDirectory: "continues w (snd (CreateDirectory w p))"
proof (cases "fst (CreateDirectory w p)")
  case True
  from CreateDirectory_success[OF True]
  have "logged [CreateDirectory_call p None] w (snd (CreateDirectory w p))"
    by (simp add: logged_def)
  then show ?thesis
    unfolding continues_def using preserved_CreateDirectory[of w p] by auto
next
  case False
  from CreateDirectory_failure[OF False] obtain e where
    "CreateDirectory w p =
       (False, w\<lparr>last_err := e, journal := journal w @ [CreateDirectory_call p (Some e)]\<rparr>)"
    by blast
  then have "logged [CreateDirectory_call p (Some e)] w (snd (CreateDirectory w p))"
    by (simp add: logged_def)
  then show ?thesis
    unfolding continues_def using preserved_CreateDirectory[of w p] by auto
qed

lemma continues_copy_regular_file: "continues w (snd (copy_regular_file w t p))"
proof (cases rule: copy_regular_file_outcome[of w t p])
  case (copied w1)
  have "preserved w w1" using copied(2) preserved_CopyFile by simp
  then have "preserved w (w1\<lparr>log := log w @ [LOG_INFO ''WOW'']\<rparr>)"
    by (simp add: preserved_def)
  moreover have "logged [CopyFile_call p (t @ filename p) None] w
                   (w1\<lparr>log := log w @ [LOG_INFO ''WOW'']\<rparr>)"
    using copied(4) by (simp add: logged_def)
  moreover have "denied w1 = denied w" "path_limit w1 = path_limit w"
    using copied(2) by simp_all
  ultimately show ?thesis
    unfolding continues_def using copied(3) by auto
next
  case (failed e)
  let ?w' = "w\<lparr>last_err := e,
               journal := journal w @ [CopyFile_call p (t @ filename p) (Some e)],
               log := log w @ [LOG_LAST_ERROR e]\<rparr>"
  have "preserved w ?w'" by (simp add: preserved_def lookup_def)
  moreover have "logged [CopyFile_call p (t @ filename p) (Some e)] w ?w'"
    by (simp add: logged_def)
  ultimately show ?thesis
    unfolding continues_def using failed(2) by auto
qed simp_all

lemma for_each_entry_invariant:
  assumes "for_each_entry rec w t ps = Some (res, w')" and "I w"
    and reg: "\<And>w2 p. (p, regular) \<in> set ps \<Longrightarrow> I w2 \<Longrightarrow> I (snd (copy_regular_file w2 t p))"
    and dir: "\<And>w2 p r w3. (p, directory) \<in> set ps \<Longrightarrow> I w2 \<Longrightarrow>
                rec w2 p (t @ filename p) = Some (r, w3) \<Longrightarrow> I w3"
  shows "I w'"
  using assms
proof (induction ps arbitrary: w)
  case Nil
  then show ?case by simp
next
  case (Cons e ps)
  obtain p ty where e: "e = (p, ty)" by (cases e)
  note run = Cons.prems(1)[unfolded e]
  have reg': "I (snd (copy_regular_file w2 t p))" if "(p, regular) \<in> set ps" "I w2" for w2 p
    using that Cons.prems(3) by simp
  have dir': "I w3"
    if "(p, directory) \<in> set ps" "I w2" "rec w2 p (t @ filename p) = Some (r, w3)"
    for w2 p r w3
    using that Cons.prems(4)[of p w2 r w3] by simp
  consider (reg) "ty = regular" | (dir) "ty = directory" | (oth) "ty = other"
    by (cases ty) auto
  then show ?case
  proof cases
    case reg
    obtain r1 w1 where c: "copy_regular_file w t p = (r1, w1)"
      by (cases "copy_regular_file w t p")
    have i1: "I w1"
      using Cons.prems(3)[of p w] Cons.prems(2) e reg c by simp
    show ?thesis
    proof (cases r1)
      case (Inl x)
      then show ?thesis using run reg c i1 by simp
    next
      case (Inr u)
      then have "for_each_entry rec w1 t ps = Some (res, w')"
        using run reg c by simp
      from Cons.IH[OF this i1 reg' dir'] show ?thesis by simp
    qed
  next
    case dir
    obtain r1 w1 where c: "rec w p (t @ filename p) = Some (r1, w1)"
      using run dir by (cases "rec w p (t @ filename p)") auto
    have i1: "I w1"
      using Cons.prems(4)[of p w r1 w1] Cons.prems(2) e dir c by simp
    show ?thesis
    proof (cases r1)
      case (Inl x)
      then show ?thesis using run dir c i1 by simp
    next
      case (Inr u)
      then have "for_each_entry rec w1 t ps = Some (res, w')"
        using run dir c by simp
      from Cons.IH[OF this i1 reg' dir'] show ?thesis by simp
    qed
  next
    case oth
    then have "for_each_entry rec w t ps = Some (res, w')"
      using run by simp
    from Cons.IH[OF this Cons.prems(2) reg' dir'] show ?thesis by simp
  qed
qed

lemma CopyDirTo_continues:
  "CopyDirTo fuel w s t = Some (res, w') \<Longrightarrow> continues w w'"
proof (induction fuel arbitrary: w s t res w')
  case 0
  then show ?case by simp
next
  case (Suc fuel)
  define w1 where "w1 = (if \<not> exists w t then snd (CreateDirectory w t) else w)"
  have a: "continues w w1"
    by (simp add: w1_def continues_CreateDirectory)
  show ?case
  proof (cases "directory_iterator w1 s")
    case (Inl e)
    then have "w' = w1" using Suc.prems by (simp add: w1_def Let_def)
    then show ?thesis using a by simp
  next
    case (Inr ps)
    then have run: "for_each_entry (CopyDirTo fuel) w1 t ps = Some (res, w')"
      using Suc.prems by (simp add: w1_def Let_def)
    show ?thesis
    proof (rule for_each_entry_invariant[where I = "continues w", OF run a])
      fix w2 p
      assume "continues w w2"
      then show "continues w (snd (copy_regular_file w2 t p))"
        using continues_copy_regular_file continues_trans by blast
    next
      fix w2 p r w3
      assume "continues w w2" "CopyDirTo fuel w2 p (t @ filename p) = Some (r, w3)"
      then show "continues w w3"
        using Suc.IH continues_trans by blast
    qed
  qed
qed

subsection \<open>The entries of a directory\<close>

lemma directory_iterator_entry:
  assumes "directory_iterator w s = Inr ps" and "(p, ty) \<in> set ps"
  shows "\<exists>n nd. p = s @ [n] \<and> plain n \<and> lookup w (key_of s @ [n]) = Some nd \<and> ftype nd = ty"
proof -
  from assms obtain k nd where nd: "(k, nd) \<in> set (AList.clearjunk (files w))"
    and k: "k \<noteq> []" "parent_path k = key_of s" "plain (last k)"
    and p: "p = s @ [last k]" and ty: "ty = ftype nd"
    by (auto simp: directory_iterator_def split: if_splits)
  have "map_of (AList.clearjunk (files w)) k = Some nd"
    using nd by (simp add: distinct_clearjunk)
  then have "lookup w k = Some nd"
    by (simp add: lookup_def map_of_clearjunk)
  moreover have "k = key_of s @ [last k]"
    using k(1,2) append_butlast_last_id[of k] by (simp add: parent_path_def)
  ultimately show ?thesis using p k(3) ty by metis
qed

lemma directory_iterator_lists:
  assumes "directory_iterator w s = Inr ps" and "lookup w (key_of s @ [n]) = Some nd"
    and "plain n"
  shows "(s @ [n], ftype nd) \<in> set ps"
proof -
  let ?k = "key_of s @ [n]"
  have "map_of (AList.clearjunk (files w)) ?k = Some nd"
    using assms(2) by (simp add: lookup_def map_of_clearjunk)
  then have "(?k, nd) \<in> set (AList.clearjunk (files w))"
    by (rule map_of_SomeD)
  moreover have "?k \<noteq> [] \<and> parent_path ?k = key_of s \<and> plain (last ?k)"
    using assms(3) by (simp add: parent_path_def)
  ultimately have "(?k, nd) \<in> set (filter (\<lambda>(k, nd). k \<noteq> [] \<and> parent_path k = key_of s \<and>
                       plain (last k)) (AList.clearjunk (files w)))"
    by simp
  then have "(\<lambda>(k, nd). (s @ [last k], ftype nd)) (?k, nd) \<in> set (map (\<lambda>(k, nd). (s @ [last k], ftype nd))
       (filter (\<lambda>(k, nd). k \<noteq> [] \<and> parent_path k = key_of s \<and> plain (last k))
          (AList.clearjunk (files w))))"
    by (simp only: set_map image_eqI)
  then show ?thesis
    using assms(1) by (auto simp: directory_iterator_def split: if_splits)
qed

lemma directory_iterator_ok:
  "is_directory w s \<Longrightarrow> \<exists>ps. directory_iterator w s = Inr ps"
  by (simp add: directory_iterator_def)

lemma directory_iterator_Inr:
  "directory_iterator w s = Inr ps \<Longrightarrow> s \<noteq> [] \<and> dir_at w (key_of s)"
  by (simp add: directory_iterator_def is_directory_dir_at split: if_splits)

lemma entry_source:
  assumes "p = s @ [n]" and "plain n"
  shows "filename p = [n]" and "key_of p = key_of s @ [n]"
  using assms by (simp_all add: filename_def key_of_snoc)

lemma entry_target:
  assumes "p = s @ [n]" and "plain n"
  shows "key_of (t @ filename p) = key_of t @ [n]"
  using assms by (simp add: filename_def key_of_snoc)

subsection \<open>What the walk may touch\<close>

lemma touched_refl [simp]: "touched s t w w"
  by (simp add: touched_def)

lemma touched_trans:
  assumes "preserved w2 w3" and "touched s t w1 w2" and "touched s t w2 w3"
  shows "touched s t w1 w3"
  unfolding touched_def
proof (intro allI impI)
  fix q
  assume d: "lookup w3 q \<noteq> lookup w1 q"
  show "prefix t q \<and> (lookup w1 q = None \<or> lookup w3 (s @ drop (length t) q) \<noteq> None)"
  proof (cases "lookup w2 q = lookup w1 q")
    case True
    then have "lookup w3 q \<noteq> lookup w2 q" using d by simp
    then have "prefix t q"
      and "lookup w2 q = None \<or> lookup w3 (s @ drop (length t) q) \<noteq> None"
      using assms(3) by (simp_all add: touched_def)
    then show ?thesis using True by auto
  next
    case False
    then have "prefix t q"
      and c: "lookup w1 q = None \<or> lookup w2 (s @ drop (length t) q) \<noteq> None"
      using assms(2) by (simp_all add: touched_def)
    moreover have "lookup w3 (s @ drop (length t) q) \<noteq> None"
      if "lookup w2 (s @ drop (length t) q) \<noteq> None"
      using that assms(1) by (rule preserved_lookup[rotated])
    ultimately show ?thesis by blast
  qed
qed

lemma not_prefix_parent: "t \<noteq> [] \<Longrightarrow> \<not> prefix t (parent_path t)"
proof
  assume "t \<noteq> []" and "prefix t (parent_path t)"
  then have "prefix t (butlast t)" by (simp add: parent_path_def)
  then have b: "length t \<le> length (butlast t)" by (rule prefix_length_le)
  have a: "length (butlast t) = length t - 1" by (rule length_butlast)
  have c: "length t \<noteq> 0" using \<open>t \<noteq> []\<close> by simp
  from a b c show False by linarith
qed

lemma footprint_touched:
  assumes "footprint s t w w1" and "touched s t w1 w'" and "preserved w1 w'"
  shows "footprint s t w w'"
  unfolding footprint_def
proof (intro allI impI)
  fix q
  assume d: "lookup w' q \<noteq> lookup w q"
  let ?under = "prefix t q \<and> (lookup w q = None \<or> lookup w' (s @ drop (length t) q) \<noteq> None)"
  let ?above = "q = parent_path t \<and> t \<noteq> [] \<and> lookup w t = None \<and> lookup w' t \<noteq> None \<and>
                restamped (lookup w q) (lookup w' q)"
  show "?under \<or> ?above"
  proof (cases "lookup w1 q = lookup w q")
    case True
    then have "lookup w' q \<noteq> lookup w1 q" using d by simp
    then have "prefix t q"
      and "lookup w1 q = None \<or> lookup w' (s @ drop (length t) q) \<noteq> None"
      using assms(2) by (simp_all add: touched_def)
    then show ?thesis using True by auto
  next
    case False
    have "(prefix t q \<and> (lookup w q = None \<or> lookup w1 (s @ drop (length t) q) \<noteq> None)) \<or>
          (q = parent_path t \<and> t \<noteq> [] \<and> lookup w t = None \<and> lookup w1 t \<noteq> None \<and>
           restamped (lookup w q) (lookup w1 q))"
      by (rule assms(1)[unfolded footprint_def, rule_format, OF False])
    then show ?thesis
    proof
      assume "prefix t q \<and> (lookup w q = None \<or> lookup w1 (s @ drop (length t) q) \<noteq> None)"
      then have p: "prefix t q"
        and c: "lookup w q = None \<or> lookup w1 (s @ drop (length t) q) \<noteq> None"
        by simp_all
      have "lookup w' (s @ drop (length t) q) \<noteq> None"
        if "lookup w1 (s @ drop (length t) q) \<noteq> None"
        using assms(3) that by (rule preserved_lookup)
      with c have "lookup w q = None \<or> lookup w' (s @ drop (length t) q) \<noteq> None"
        by blast
      with p show ?thesis by blast
    next
      assume "q = parent_path t \<and> t \<noteq> [] \<and> lookup w t = None \<and> lookup w1 t \<noteq> None \<and>
              restamped (lookup w q) (lookup w1 q)"
      then have q: "q = parent_path t" and t: "t \<noteq> []" and n: "lookup w t = None"
        and n1: "lookup w1 t \<noteq> None" and r: "restamped (lookup w q) (lookup w1 q)"
        by blast+
      have "\<not> prefix t q" using q t not_prefix_parent by simp
      then have same: "lookup w' q = lookup w1 q"
        using assms(2) by (auto simp: touched_def)
      have "lookup w' t \<noteq> None"
        using assms(3) n1 by (rule preserved_lookup)
      with q t n r same show ?thesis by simp
    qed
  qed
qed

lemma touched_sub:
  assumes "footprint (s @ [n]) (t @ [n]) w w'" and "lookup w' s \<noteq> None"
  shows "touched s t w w'"
  unfolding touched_def
proof (intro allI impI)
  fix q
  assume d: "lookup w' q \<noteq> lookup w q"
  have "(prefix (t @ [n]) q \<and>
         (lookup w q = None \<or>
          lookup w' ((s @ [n]) @ drop (length (t @ [n])) q) \<noteq> None)) \<or>
        (q = parent_path (t @ [n]) \<and> t @ [n] \<noteq> [] \<and> lookup w (t @ [n]) = None \<and>
         lookup w' (t @ [n]) \<noteq> None \<and> restamped (lookup w q) (lookup w' q))"
    by (rule assms(1)[unfolded footprint_def, rule_format, OF d])
  then show "prefix t q \<and> (lookup w q = None \<or> lookup w' (s @ drop (length t) q) \<noteq> None)"
  proof
    assume "prefix (t @ [n]) q \<and>
         (lookup w q = None \<or>
          lookup w' ((s @ [n]) @ drop (length (t @ [n])) q) \<noteq> None)"
    then have p: "prefix (t @ [n]) q"
      and c: "lookup w q = None \<or> lookup w' ((s @ [n]) @ drop (length (t @ [n])) q) \<noteq> None"
      by simp_all
    from p obtain r where q: "q = t @ [n] @ r" by (auto simp: prefix_def)
    then have "(s @ [n]) @ drop (length (t @ [n])) q = s @ drop (length t) q" by simp
    then show ?thesis using c q by auto
  next
    assume "q = parent_path (t @ [n]) \<and> t @ [n] \<noteq> [] \<and> lookup w (t @ [n]) = None \<and>
         lookup w' (t @ [n]) \<noteq> None \<and> restamped (lookup w q) (lookup w' q)"
    then have "q = t" by (simp add: parent_path_def)
    then show ?thesis using assms(2) by simp
  qed
qed

lemma footprint_CreateDirectory:
  "footprint s (key_of p) w (snd (CreateDirectory w p))"
  unfolding footprint_def
proof (intro allI impI)
  fix q
  let ?w' = "snd (CreateDirectory w p)"
  let ?t = "key_of p"
  assume d: "lookup ?w' q \<noteq> lookup w q"
  then have ok: "fst (CreateDirectory w p)"
    by (auto simp: lookup_CreateDirectory split: if_splits)
  then have new: "lookup w ?t = None" "?t \<noteq> []"
    by (simp_all add: CreateDirectory_success_iff)
  have there: "lookup ?w' ?t \<noteq> None"
    using ok by (simp add: lookup_CreateDirectory)
  show "(prefix ?t q \<and> (lookup w q = None \<or> lookup ?w' (s @ drop (length ?t) q) \<noteq> None)) \<or>
        (q = parent_path ?t \<and> ?t \<noteq> [] \<and> lookup w ?t = None \<and> lookup ?w' ?t \<noteq> None \<and>
         restamped (lookup w q) (lookup ?w' q))"
  proof (cases "q = ?t")
    case True
    then show ?thesis using new by simp
  next
    case False
    then have q: "q = parent_path ?t"
      and l: "lookup ?w' q = map_option (\<lambda>nd. nd\<lparr>mtime := clock w\<rparr>) (lookup w q)"
      using d ok by (auto simp: lookup_CreateDirectory split: if_splits)
    from l d obtain nd where "lookup w q = Some nd" by (cases "lookup w q") auto
    then have "restamped (lookup w q) (lookup ?w' q)"
      using l by (auto simp: restamped_def)
    then show ?thesis using q new there by simp
  qed
qed

lemma touched_copy_regular_file:
  assumes "p = s @ [n]" and "plain n" and "lookup w (key_of s) \<noteq> None"
  shows "touched (key_of s) (key_of t) w (snd (copy_regular_file w t p))"
  unfolding touched_def
proof (intro allI impI)
  fix q
  let ?w' = "snd (copy_regular_file w t p)"
  let ?d = "t @ filename p"
  note nm = entry_source[OF assms(1,2)] entry_target[OF assms(1,2), of t]
  assume d: "lookup ?w' q \<noteq> lookup w q"
  have pres: "preserved w ?w'"
    using continues_copy_regular_file[of w t p] by (rule continues_preserved)
  have src: "lookup ?w' (key_of s) \<noteq> None"
    using pres assms(3) by (rule preserved_lookup)
  show "prefix (key_of t) q \<and>
        (lookup w q = None \<or> lookup ?w' (key_of s @ drop (length (key_of t)) q) \<noteq> None)"
  proof (cases rule: copy_regular_file_outcome[of w t p])
    case (copied w1)
    have l: "lookup ?w' q = lookup w1 q" using copied(3) by simp
    have ok: "fst (CopyFile w p ?d False)" by (rule copied(1))
    then have "lookup w (key_of p) \<noteq> None" by (auto simp: CopyFile_success_iff)
    then have copy: "lookup ?w' (key_of s @ [n]) \<noteq> None"
      using pres preserved_lookup nm(2) by metis
    have "lookup w1 q =
            (if q = key_of t @ [n] then lookup w (key_of p)
             else if q = key_of t \<and> lookup w (key_of t @ [n]) = None
             then map_option (\<lambda>nd. nd\<lparr>mtime := clock w\<rparr>) (lookup w q)
             else lookup w q)"
      using lookup_CopyFile[of w p ?d False q] ok copied(2)
      by (simp add: nm(3) parent_path_def)
    with d l consider "q = key_of t @ [n]" | "q = key_of t"
      by (auto split: if_splits)
    then show ?thesis
    proof cases
      case 1
      then show ?thesis using copy by simp
    next
      case 2
      then show ?thesis using src by simp
    qed
  next
    case (failed e)
    then have "lookup ?w' q = lookup w q" by (simp add: lookup_def)
    then show ?thesis using d by simp
  qed (use d in simp_all)
qed

lemma CopyDirTo_footprint:
  "CopyDirTo fuel w s t = Some (res, w') \<Longrightarrow> footprint (key_of s) (key_of t) w w'"
proof (induction fuel arbitrary: w s t res w')
  case 0
  then show ?case by simp
next
  case (Suc fuel)
  define w1 where "w1 = (if \<not> exists w t then snd (CreateDirectory w t) else w)"
  have a: "footprint (key_of s) (key_of t) w w1"
    by (simp add: w1_def footprint_CreateDirectory) (simp add: footprint_def)
  show ?case
  proof (cases "directory_iterator w1 s")
    case (Inl e)
    then have "w' = w1" using Suc.prems by (simp add: w1_def Let_def)
    then show ?thesis using a by simp
  next
    case (Inr ps)
    then have run: "for_each_entry (CopyDirTo fuel) w1 t ps = Some (res, w')"
      using Suc.prems by (simp add: w1_def Let_def)
    from directory_iterator_Inr[OF Inr] have "lookup w1 (key_of s) \<noteq> None"
      by (auto simp: dir_at_def split: option.splits)
    then have src: "lookup w2 (key_of s) \<noteq> None" if "continues w1 w2" for w2
      using that continues_preserved preserved_lookup by blast
    let ?I = "\<lambda>w2. continues w1 w2 \<and> touched (key_of s) (key_of t) w1 w2"
    have "?I w'"
    proof (rule for_each_entry_invariant[where I = ?I, OF run])
      show "?I w1" by simp
    next
      fix w2 p
      assume mem: "(p, regular) \<in> set ps" and i: "?I w2"
      let ?w3 = "snd (copy_regular_file w2 t p)"
      from directory_iterator_entry[OF Inr mem] obtain n where n: "p = s @ [n]" "plain n"
        by blast
      have c: "continues w2 ?w3" by (rule continues_copy_regular_file)
      have "touched (key_of s) (key_of t) w2 ?w3"
        using n src i by (intro touched_copy_regular_file) simp_all
      then have "touched (key_of s) (key_of t) w1 ?w3"
        using i c continues_preserved touched_trans by blast
      then show "?I ?w3" using i c continues_trans by blast
    next
      fix w2 p r w3
      assume mem: "(p, directory) \<in> set ps" and i: "?I w2"
        and rec: "CopyDirTo fuel w2 p (t @ filename p) = Some (r, w3)"
      from directory_iterator_entry[OF Inr mem] obtain n where n: "p = s @ [n]" "plain n"
        by blast
      note nm = entry_source(2)[OF n] entry_target[OF n, of t]
      have c: "continues w2 w3" using rec by (rule CopyDirTo_continues)
      then have c13: "continues w1 w3" using i continues_trans by blast
      from Suc.IH[OF rec] have "footprint (key_of s @ [n]) (key_of t @ [n]) w2 w3"
        by (simp add: nm)
      then have "touched (key_of s) (key_of t) w2 w3"
        using src[OF c13] by (rule touched_sub)
      then have "touched (key_of s) (key_of t) w1 w3"
        using i c continues_preserved touched_trans by blast
      then show "?I w3" using c13 by simp
    qed
    then show ?thesis
      using a footprint_touched continues_preserved by blast
  qed
qed

subsection \<open>The walk ends\<close>

lemma bounded_key:
  assumes "length (native k) < path_limit w" and "path_limit w \<le> B"
  shows "length k \<le> B"
  using assms length_native[of k] by simp

lemma bounded_CreateDirectory:
  assumes "bounded B w" and "path_limit w \<le> B"
  shows "bounded B (snd (CreateDirectory w p))"
  unfolding bounded_def
proof (intro allI impI)
  fix k
  assume k: "lookup (snd (CreateDirectory w p)) k \<noteq> None"
  show "length k \<le> B"
  proof (cases "lookup w k")
    case (Some nd)
    then show ?thesis using assms(1) by (simp add: bounded_def)
  next
    case None
    then have "fst (CreateDirectory w p) \<and> k = key_of p"
      using k by (auto simp: lookup_CreateDirectory split: if_splits)
    then have "length (native k) < path_limit w"
      by (simp add: CreateDirectory_success_iff)
    then show ?thesis using assms(2) by (rule bounded_key)
  qed
qed

lemma bounded_copy_regular_file:
  assumes "bounded B w" and "path_limit w \<le> B"
  shows "bounded B (snd (copy_regular_file w t p))"
proof (cases rule: copy_regular_file_outcome[of w t p])
  case (copied w1)
  have "bounded B w1"
    unfolding bounded_def
  proof (intro allI impI)
    fix k
    assume k: "lookup w1 k \<noteq> None"
    show "length k \<le> B"
    proof (cases "lookup w k")
      case (Some nd)
      then show ?thesis using assms(1) by (simp add: bounded_def)
    next
      case None
      then have "k = key_of (t @ filename p)"
        using k copied(1,2) by (auto simp: lookup_CopyFile split: if_splits)
      then have "length (native k) < path_limit w"
        using copied(1) by (simp add: CopyFile_success_iff)
      then show ?thesis using assms(2) by (rule bounded_key)
    qed
  qed
  then show ?thesis using copied(3) by (simp add: bounded_def)
next
  case (failed e)
  then show ?thesis using assms(1) by (simp add: bounded_def lookup_def)
qed (use assms(1) in simp_all)

lemma continues_path_limit: "continues w w' \<Longrightarrow> path_limit w' = path_limit w"
  by (simp add: continues_def)

lemma for_each_entry_terminates:
  assumes rec: "\<And>w2 p. (p, directory) \<in> set ps \<Longrightarrow> continues w0 w2 \<Longrightarrow> bounded B w2 \<Longrightarrow>
                  \<exists>w3. rec w2 p (t @ filename p) = Some (Inr (), w3) \<and> bounded B w3 \<and>
                       continues w2 w3"
    and ents: "\<forall>(p, ty) \<in> set ps. ty = regular \<longrightarrow> stat w0 p \<noteq> None"
    and "continues w0 w" and "bounded B w" and "path_limit w0 \<le> B"
  shows "\<exists>w'. for_each_entry rec w t ps = Some (Inr (), w') \<and> bounded B w'"
  using assms(1-4)
proof (induction ps arbitrary: w)
  case Nil
  then show ?case by simp
next
  case (Cons e ps)
  obtain p ty where e: "e = (p, ty)" by (cases e)
  have rec': "\<exists>w3. rec w2 p (t @ filename p) = Some (Inr (), w3) \<and> bounded B w3 \<and>
                   continues w2 w3"
    if "(p, directory) \<in> set ps" "continues w0 w2" "bounded B w2" for w2 p
    using that Cons.prems(1)[of p w2] by simp
  have ents': "\<forall>(p, ty) \<in> set ps. ty = regular \<longrightarrow> stat w0 p \<noteq> None"
    using Cons.prems(2) by simp
  have lim: "path_limit w \<le> B"
    using continues_path_limit[OF Cons.prems(3)] assms(5) by simp
  consider (reg) "ty = regular" | (dir) "ty = directory" | (oth) "ty = other"
    by (cases ty) auto
  then show ?case
  proof cases
    case reg
    then have "stat w0 p \<noteq> None" using Cons.prems(2) e by simp
    then have "stat w p \<noteq> None"
      using continues_preserved[OF Cons.prems(3)] preserved_stat by blast
    from copy_regular_file_no_throw[OF this, of t]
    obtain w1 where c: "copy_regular_file w t p = (Inr (), w1)"
      by (cases "copy_regular_file w t p") auto
    then have w1: "w1 = snd (copy_regular_file w t p)" by simp
    have b1: "bounded B w1"
      unfolding w1 using Cons.prems(4) lim by (rule bounded_copy_regular_file)
    have c1: "continues w0 w1"
      unfolding w1 using Cons.prems(3) continues_copy_regular_file continues_trans by blast
    from Cons.IH[OF rec' ents' c1 b1]
    obtain w' where "for_each_entry rec w1 t ps = Some (Inr (), w')" "bounded B w'"
      by blast
    then show ?thesis using e reg c by simp
  next
    case dir
    from Cons.prems(1)[of p w] e dir Cons.prems(3,4)
    obtain w1 where c: "rec w p (t @ filename p) = Some (Inr (), w1)"
      and b1: "bounded B w1" and "continues w w1"
      by auto
    then have c1: "continues w0 w1"
      using Cons.prems(3) continues_trans by blast
    from Cons.IH[OF rec' ents' c1 b1]
    obtain w' where "for_each_entry rec w1 t ps = Some (Inr (), w')" "bounded B w'"
      by blast
    then show ?thesis using e dir c by simp
  next
    case oth
    from Cons.IH[OF rec' ents' Cons.prems(3,4)]
    obtain w' where "for_each_entry rec w t ps = Some (Inr (), w')" "bounded B w'"
      by blast
    then show ?thesis using e oth by simp
  qed
qed

lemma CopyDirTo_terminates_bounded:
  assumes "bounded B w" and "path_limit w \<le> B" and "is_directory w s"
    and "B < length (key_of s) + fuel"
  shows "\<exists>w'. CopyDirTo fuel w s t = Some (Inr (), w') \<and> bounded B w'"
  using assms
proof (induction fuel arbitrary: w s t)
  case 0
  from 0(3) have "lookup w (key_of s) \<noteq> None"
    by (auto simp: is_directory_dir_at dir_at_def split: option.splits)
  then have "length (key_of s) \<le> B" using 0(1) by (simp add: bounded_def)
  then show ?case using 0(4) by simp
next
  case (Suc fuel)
  define w1 where "w1 = (if \<not> exists w t then snd (CreateDirectory w t) else w)"
  have b1: "bounded B w1"
    using Suc.prems(1,2) by (simp add: w1_def bounded_CreateDirectory)
  have c1: "continues w w1"
    by (simp add: w1_def continues_CreateDirectory)
  have lim1: "path_limit w1 \<le> B"
    using continues_path_limit[OF c1] Suc.prems(2) by simp
  have "is_directory w1 s"
    using continues_preserved[OF c1] Suc.prems(3) by (rule preserved_is_directory)
  then obtain ps where ps: "directory_iterator w1 s = Inr ps"
    using directory_iterator_ok by blast
  have rec: "\<exists>w3. CopyDirTo fuel w2 p (t @ filename p) = Some (Inr (), w3) \<and> bounded B w3 \<and>
                  continues w2 w3"
    if mem: "(p, directory) \<in> set ps" and c2: "continues w1 w2" and b2: "bounded B w2"
    for w2 p
  proof -
    from directory_iterator_entry[OF ps mem] obtain n nd where
      n: "p = s @ [n]" "plain n" and nd: "lookup w1 (key_of s @ [n]) = Some nd"
      "ftype nd = directory"
      by blast
    have k: "key_of p = key_of s @ [n]" using n by (rule entry_source(2))
    have "dir_at w1 (key_of p)" using nd k by (simp add: dir_at_def)
    then have "dir_at w2 (key_of p)"
      using continues_preserved[OF c2] preserved_dir_at by blast
    then have d2: "is_directory w2 p" using n(1) by (simp add: is_directory_dir_at)
    have lim2: "path_limit w2 \<le> B"
      using continues_path_limit[OF c2] lim1 by simp
    have "B < length (key_of p) + fuel" using Suc.prems(4) k by simp
    from Suc.IH[OF b2 lim2 d2 this, of "t @ filename p"]
    obtain w3 where r: "CopyDirTo fuel w2 p (t @ filename p) = Some (Inr (), w3)"
      and "bounded B w3"
      by blast
    moreover from r have "continues w2 w3" by (rule CopyDirTo_continues)
    ultimately show ?thesis by blast
  qed
  have ents: "\<forall>(p, ty) \<in> set ps. ty = regular \<longrightarrow> stat w1 p \<noteq> None"
  proof -
    have "stat w1 p \<noteq> None" if mem: "(p, ty) \<in> set ps" for p ty
    proof -
      from directory_iterator_entry[OF ps mem] obtain n nd where
        n: "p = s @ [n]" "plain n" and nd: "lookup w1 (key_of s @ [n]) = Some nd"
        by blast
      have "key_of p = key_of s @ [n]" using n by (rule entry_source(2))
      then show ?thesis using n(1) nd by (simp add: stat_def)
    qed
    then show ?thesis by auto
  qed
  from for_each_entry_terminates[where rec = "CopyDirTo fuel" and ?w0.0 = w1 and w = w1
      and B = B and t = t and ps = ps, OF rec ents _ b1 lim1]
  obtain w' where "for_each_entry (CopyDirTo fuel) w1 t ps = Some (Inr (), w')" "bounded B w'"
    by auto
  then show ?case using ps by (simp add: w1_def Let_def)
qed

lemma bounded_exists: "\<exists>B. bounded B w \<and> path_limit w \<le> B"
proof -
  let ?B = "path_limit w + sum_list (map (length \<circ> fst) (files w))"
  have "length k \<le> ?B" if "lookup w k \<noteq> None" for k
  proof -
    from that obtain nd where "(k, nd) \<in> set (files w)"
      by (auto simp: lookup_def dest: map_of_SomeD)
    then have "length k \<in> set (map (length \<circ> fst) (files w))" by force
    then have "length k \<le> sum_list (map (length \<circ> fst) (files w))"
      by (simp add: member_le_sum_list)
    then show ?thesis by simp
  qed
  then have "bounded ?B w \<and> path_limit w \<le> ?B" by (simp add: bounded_def)
  then show ?thesis by blast
qed

lemma CopyDirTo_terminates:
  assumes "is_directory w s"
  shows "\<exists>fuel w'. CopyDirTo fuel w s t = Some (Inr (), w')"
proof -
  from bounded_exists obtain B where B: "bounded B w" "path_limit w \<le> B" by blast
  have "B < length (key_of s) + Suc B" by simp
  from CopyDirTo_terminates_bounded[OF B assms this] show ?thesis by blast
qed

subsection \<open>What the walk throws\<close>

lemma up_to_date_exception: "up_to_date w p d = Inl e \<Longrightarrow> thrown_by_reads e"
  by (auto simp: up_to_date_def last_write_time_def thrown_by_reads_def
      split: if_splits option.splits)

lemma copy_regular_file_exception:
  "copy_regular_file w t p = (Inl e, w') \<Longrightarrow> thrown_by_reads e"
  by (cases rule: copy_regular_file_cases[of w t p]) (auto dest: up_to_date_exception)

lemma for_each_entry_exception:
  assumes rec: "\<And>w p t' x w'. rec w p t' = Some (Inl x, w') \<Longrightarrow> thrown_by_reads x"
    and run: "for_each_entry rec w t ps = Some (Inl x, w')"
  shows "thrown_by_reads x"
  using run
proof (induction ps arbitrary: w)
  case Nil
  then show ?case by simp
next
  case (Cons e ps)
  obtain p ty where e: "e = (p, ty)" by (cases e)
  note run = Cons.prems[unfolded e]
  consider (reg) "ty = regular" | (dir) "ty = directory" | (oth) "ty = other"
    by (cases ty) auto
  then show ?case
  proof cases
    case reg
    obtain r1 w1 where c: "copy_regular_file w t p = (r1, w1)"
      by (cases "copy_regular_file w t p")
    show ?thesis
    proof (cases r1)
      case (Inl y)
      then have "x = y" using run reg c by simp
      then show ?thesis using copy_regular_file_exception c Inl by blast
    next
      case (Inr u)
      then have "for_each_entry rec w1 t ps = Some (Inl x, w')"
        using run reg c by simp
      then show ?thesis by (rule Cons.IH)
    qed
  next
    case dir
    obtain r1 w1 where c: "rec w p (t @ filename p) = Some (r1, w1)"
      using run dir by (cases "rec w p (t @ filename p)") auto
    show ?thesis
    proof (cases r1)
      case (Inl y)
      then have "x = y" using run dir c by simp
      then show ?thesis using rec c Inl by blast
    next
      case (Inr u)
      then have "for_each_entry rec w1 t ps = Some (Inl x, w')"
        using run dir c by simp
      then show ?thesis by (rule Cons.IH)
    qed
  next
    case oth
    then have "for_each_entry rec w t ps = Some (Inl x, w')"
      using run by simp
    then show ?thesis by (rule Cons.IH)
  qed
qed

lemma CopyDirTo_exception:
  "CopyDirTo fuel w s t = Some (Inl x, w') \<Longrightarrow> thrown_by_reads x"
proof (induction fuel arbitrary: w s t x w')
  case 0
  then show ?case by simp
next
  case (Suc fuel)
  define w1 where "w1 = (if \<not> exists w t then snd (CreateDirectory w t) else w)"
  show ?case
  proof (cases "directory_iterator w1 s")
    case (Inl e)
    then have "x = e" using Suc.prems by (simp add: w1_def Let_def)
    moreover have "e = filesystem_error ''directory_iterator::directory_iterator''"
      using Inl by (simp add: directory_iterator_def split: if_splits)
    ultimately show ?thesis by (simp add: thrown_by_reads_def)
  next
    case (Inr ps)
    then have "for_each_entry (CopyDirTo fuel) w1 t ps = Some (Inl x, w')"
      using Suc.prems by (simp add: w1_def Let_def)
    with Suc.IH show ?thesis by (rule for_each_entry_exception)
  qed
qed

subsection \<open>Every entry is visited\<close>

lemma for_each_entry_continues:
  assumes "for_each_entry rec w t ps = Some (res, w')"
    and rec: "\<And>w2 p r w3. rec w2 p (t @ filename p) = Some (r, w3) \<Longrightarrow> continues w2 w3"
  shows "continues w w'"
proof (rule for_each_entry_invariant[where I = "continues w", OF assms(1)])
  show "continues w w" by simp
next
  fix w2 p
  assume "continues w w2"
  then show "continues w (snd (copy_regular_file w2 t p))"
    using continues_copy_regular_file continues_trans by blast
next
  fix w2 p r w3
  assume "continues w w2" "rec w2 p (t @ filename p) = Some (r, w3)"
  then show "continues w w3"
    using rec continues_trans by blast
qed

lemma for_each_entry_visits:
  assumes "for_each_entry rec w t ps = Some (Inr (), w')"
    and rec: "\<And>w2 p r w3. rec w2 p (t @ filename p) = Some (r, w3) \<Longrightarrow> continues w2 w3"
    and "(p, ty) \<in> set ps" and "ty \<noteq> other"
  shows "\<exists>w2 w3. continues w w2 \<and> continues w3 w' \<and>
           (ty = regular \<longrightarrow> copy_regular_file w2 t p = (Inr (), w3)) \<and>
           (ty = directory \<longrightarrow> rec w2 p (t @ filename p) = Some (Inr (), w3))"
  using assms(1,3)
proof (induction ps arbitrary: w)
  case Nil
  then show ?case by simp
next
  case (Cons e ps)
  obtain p0 ty0 where e: "e = (p0, ty0)" by (cases e)
  note run = Cons.prems(1)[unfolded e]
  have later: ?case
    if c: "continues w w1" and rest: "for_each_entry rec w1 t ps = Some (Inr (), w')"
      and mem: "(p, ty) \<in> set ps" for w1
  proof -
    from Cons.IH[OF rest mem] obtain w2 w3 where
      "continues w1 w2" "continues w3 w'"
      "ty = regular \<longrightarrow> copy_regular_file w2 t p = (Inr (), w3)"
      "ty = directory \<longrightarrow> rec w2 p (t @ filename p) = Some (Inr (), w3)"
      by blast
    moreover from this(1) c have "continues w w2" using continues_trans by blast
    ultimately show ?thesis by blast
  qed
  consider (reg) "ty0 = regular" | (dir) "ty0 = directory" | (oth) "ty0 = other"
    by (cases ty0) auto
  then show ?case
  proof cases
    case reg
    obtain r1 w1 where c: "copy_regular_file w t p0 = (r1, w1)"
      by (cases "copy_regular_file w t p0")
    have r1: "r1 = Inr ()" and rest: "for_each_entry rec w1 t ps = Some (Inr (), w')"
      using run reg c by (cases r1; simp)+
    have c1: "continues w w1"
      using continues_copy_regular_file[of w t p0] c by simp
    show ?thesis
    proof (cases "(p, ty) = e")
      case True
      have "continues w1 w'" using rest rec by (rule for_each_entry_continues)
      moreover have "copy_regular_file w t p = (Inr (), w1)" and "ty = regular"
        using True e c r1 reg by simp_all
      ultimately show ?thesis using continues_refl[of w] by blast
    next
      case False
      then have "(p, ty) \<in> set ps" using Cons.prems(2) by simp
      from later[OF c1 rest this] show ?thesis .
    qed
  next
    case dir
    obtain r1 w1 where c: "rec w p0 (t @ filename p0) = Some (r1, w1)"
      using run dir by (cases "rec w p0 (t @ filename p0)") auto
    have r1: "r1 = Inr ()" and rest: "for_each_entry rec w1 t ps = Some (Inr (), w')"
      using run dir c by (cases r1; simp)+
    have c1: "continues w w1" using c by (rule rec)
    show ?thesis
    proof (cases "(p, ty) = e")
      case True
      have "continues w1 w'" using rest rec by (rule for_each_entry_continues)
      moreover have "rec w p (t @ filename p) = Some (Inr (), w1)" and "ty = directory"
        using True e c r1 dir by simp_all
      ultimately show ?thesis using continues_refl[of w] by blast
    next
      case False
      then have "(p, ty) \<in> set ps" using Cons.prems(2) by simp
      from later[OF c1 rest this] show ?thesis .
    qed
  next
    case oth
    then have rest: "for_each_entry rec w t ps = Some (Inr (), w')"
      using run by simp
    have "(p, ty) \<noteq> e" using oth e assms(4) by auto
    then have "(p, ty) \<in> set ps" using Cons.prems(2) by simp
    from later[OF continues_refl rest this] show ?thesis .
  qed
qed

lemma journal_between:
  assumes "continues w a" and "continues b w'"
    and "journal b = journal a @ ds" and "journal w' = journal w @ cs"
  shows "set ds \<subseteq> set cs"
proof -
  from continues_journal[OF assms(1)] obtain c1 where "journal a = journal w @ c1" by blast
  moreover from continues_journal[OF assms(2)] obtain c3 where "journal w' = journal b @ c3"
    by blast
  ultimately have "cs = c1 @ ds @ c3" using assms(3,4) by simp
  then show ?thesis by auto
qed

lemma source_file_Cons:
  "source_file w s (n # r) \<longleftrightarrow>
     plain n \<and> dir_at w s \<and>
     (if r = [] then (\<exists>nd. lookup w (s @ [n]) = Some nd \<and> ftype nd = regular)
      else source_file w (s @ [n]) r)"
  by (cases r) (auto split: option.splits)

lemma source_file_ConsD:
  assumes "source_file w s (n # r)"
  shows "plain n" and "dir_at w s"
    and "r = [] \<Longrightarrow> \<exists>nd. lookup w (s @ [n]) = Some nd \<and> ftype nd = regular"
    and "r \<noteq> [] \<Longrightarrow> source_file w (s @ [n]) r"
  using assms by (simp_all add: source_file_Cons)

lemma source_file_preserved:
  "preserved w w' \<Longrightarrow> source_file w s r \<Longrightarrow> source_file w' s r"
proof (induction r arbitrary: s)
  case Nil
  then show ?case by simp
next
  case (Cons n r)
  note D = source_file_ConsD[OF Cons.prems(2)]
  have n: "plain n" and d: "dir_at w s" by (rule D)+
  have d': "dir_at w' s" using Cons.prems(1) d by (rule preserved_dir_at)
  show ?case
  proof (cases "r = []")
    case True
    then obtain nd where "lookup w (s @ [n]) = Some nd" "ftype nd = regular"
      using D(3) by auto
    then obtain nd' where "lookup w' (s @ [n]) = Some nd'" "ftype nd' = regular"
      using Cons.prems(1) by (fastforce simp: preserved_def)
    then show ?thesis using True n d' by (simp add: source_file_Cons)
  next
    case False
    then have "source_file w (s @ [n]) r" by (rule D(4))
    from Cons.IH[OF Cons.prems(1) this] show ?thesis
      using False n d' by (simp add: source_file_Cons)
  qed
qed

lemma source_file_plain: "source_file w s r \<Longrightarrow> list_all plain r"
proof (induction r arbitrary: s)
  case Nil
  then show ?case by simp
next
  case (Cons n r)
  note D = source_file_ConsD[OF Cons.prems]
  have n: "plain n" by (rule D)
  show ?case
  proof (cases "r = []")
    case True
    then show ?thesis using n by simp
  next
    case False
    then have "source_file w (s @ [n]) r" by (rule D(4))
    from Cons.IH[OF this] show ?thesis using n by simp
  qed
qed

lemma key_of_append: "list_all plain r \<Longrightarrow> key_of (p @ r) = key_of p @ r"
proof (induction r arbitrary: p)
  case Nil
  then show ?case by simp
next
  case (Cons n r)
  from Cons.IH[of "p @ [n]"] Cons.prems show ?case by (simp add: key_of_snoc)
qed

lemma up_to_date_True: "up_to_date w p d = Inr True \<Longrightarrow> stat w d \<noteq> None"
  by (auto simp: up_to_date_def exists_def split: if_splits)

lemma copy_regular_file_covers:
  assumes "copy_regular_file w t p = (Inr (), w')"
  shows "(\<exists>x. journal w' = journal w @ [CopyFile_call p (t @ filename p) x]) \<or>
         stat w' (t @ filename p) \<noteq> None"
proof (cases rule: copy_regular_file_outcome[of w t p])
  case skip
  then show ?thesis using assms up_to_date_True by auto
next
  case (copied w1)
  then show ?thesis using assms by auto
next
  case (failed e)
  then show ?thesis using assms by auto
qed (use assms in simp)

lemma CopyDirTo_covers:
  assumes "CopyDirTo fuel w s t = Some (Inr (), w')" and "source_file w (key_of s) r"
    and "journal w' = journal w @ cs"
  shows "(\<exists>x. CopyFile_call (s @ r) (t @ r) x \<in> set cs) \<or> lookup w' (key_of t @ r) \<noteq> None"
  using assms
proof (induction fuel arbitrary: w s t w' r cs)
  case 0
  then show ?case by simp
next
  case (Suc fuel)
  define w1 where "w1 = (if \<not> exists w t then snd (CreateDirectory w t) else w)"
  have c1: "continues w w1"
    by (simp add: w1_def continues_CreateDirectory)
  obtain ps where ps: "directory_iterator w1 s = Inr ps"
    using Suc.prems(1) by (cases "directory_iterator w1 s") (simp_all add: w1_def Let_def)
  then have run: "for_each_entry (CopyDirTo fuel) w1 t ps = Some (Inr (), w')"
    using Suc.prems(1) by (simp add: w1_def Let_def)
  have rec: "continues w2 w3" if "CopyDirTo fuel w2 p (t @ filename p) = Some (r, w3)"
    for w2 p r w3
    using that by (rule CopyDirTo_continues)
  have visits: "\<exists>w2 w3. continues w1 w2 \<and> continues w3 w' \<and>
           (ty = regular \<longrightarrow> copy_regular_file w2 t p = (Inr (), w3)) \<and>
           (ty = directory \<longrightarrow> CopyDirTo fuel w2 p (t @ filename p) = Some (Inr (), w3))"
    if "(p, ty) \<in> set ps" "ty \<noteq> other" for p ty
  proof (rule for_each_entry_visits[where rec = "CopyDirTo fuel", OF run _ that])
    show "continues w2 w3" if "CopyDirTo fuel w2 p (t @ filename p) = Some (r, w3)"
      for w2 p r w3
      using that by (rule CopyDirTo_continues)
  qed
  obtain n r' where r: "r = n # r'"
    using Suc.prems(2) by (cases r) simp_all
  note D = source_file_ConsD[OF Suc.prems(2)[unfolded r]]
  have n: "plain n" by (rule D)
  let ?p = "s @ [n]"
  note nm = entry_source[of ?p s n, OF refl n] entry_target[of ?p s n t, OF refl n]
  show ?case
  proof (cases "r' = []")
    case True
    then obtain nd where "lookup w (key_of s @ [n]) = Some nd" "ftype nd = regular"
      using D(3) by auto
    then obtain nd1 where "lookup w1 (key_of s @ [n]) = Some nd1" "ftype nd1 = regular"
      using continues_preserved[OF c1] by (fastforce simp: preserved_def)
    from directory_iterator_lists[OF ps this(1) n] this(2)
    have mem: "(?p, regular) \<in> set ps" by simp
    from visits[OF mem]
    obtain w2 w3 where c2: "continues w1 w2" and c3: "continues w3 w'"
      and c: "copy_regular_file w2 t ?p = (Inr (), w3)"
      by auto
    from copy_regular_file_covers[OF c]
    show ?thesis
    proof
      assume "\<exists>x. journal w3 = journal w2 @ [CopyFile_call ?p (t @ filename ?p) x]"
      then obtain x where j: "journal w3 = journal w2 @ [CopyFile_call ?p (t @ [n]) x]"
        using nm(1) by auto
      have "continues w w2" using c1 c2 by (rule continues_trans)
      from journal_between[OF this c3 j Suc.prems(3)]
      have "CopyFile_call ?p (t @ [n]) x \<in> set cs" by simp
      then show ?thesis using r True by auto
    next
      assume "stat w3 (t @ filename ?p) \<noteq> None"
      then have "lookup w3 (key_of t @ [n]) \<noteq> None"
        using nm(3) by (simp add: stat_def split: if_splits)
      then have "lookup w' (key_of t @ [n]) \<noteq> None"
        using continues_preserved[OF c3] preserved_lookup by blast
      then show ?thesis using r True by simp
    qed
  next
    case False
    then have sub: "source_file w (key_of s @ [n]) r'" by (rule D(4))
    then have "dir_at w (key_of s @ [n])"
      using False by (cases r') (simp_all add: source_file_Cons)
    then obtain nd where "lookup w (key_of s @ [n]) = Some nd" "ftype nd = directory"
      by (auto simp: dir_at_def split: option.splits)
    then obtain nd1 where "lookup w1 (key_of s @ [n]) = Some nd1" "ftype nd1 = directory"
      using continues_preserved[OF c1] by (fastforce simp: preserved_def)
    from directory_iterator_lists[OF ps this(1) n] this(2)
    have mem: "(?p, directory) \<in> set ps" by simp
    from visits[OF mem]
    obtain w2 w3 where c2: "continues w1 w2" and c3: "continues w3 w'"
      and c: "CopyDirTo fuel w2 ?p (t @ filename ?p) = Some (Inr (), w3)"
      by auto
    have c02: "continues w w2" using c1 c2 by (rule continues_trans)
    have sub2: "source_file w2 (key_of ?p) r'"
      using source_file_preserved[OF continues_preserved[OF c02] sub] nm(2) by simp
    from continues_journal[OF rec[OF c]] obtain ds where ds: "journal w3 = journal w2 @ ds"
      by blast
    from Suc.IH[OF c sub2 ds]
    show ?thesis
    proof
      assume "\<exists>x. CopyFile_call (?p @ r') ((t @ filename ?p) @ r') x \<in> set ds"
      then obtain x where "CopyFile_call (s @ r) (t @ r) x \<in> set ds"
        using nm(1) r by auto
      moreover have "set ds \<subseteq> set cs"
        using c02 c3 ds Suc.prems(3) by (rule journal_between)
      ultimately show ?thesis by blast
    next
      assume "lookup w3 (key_of (t @ filename ?p) @ r') \<noteq> None"
      then have "lookup w3 (key_of t @ r) \<noteq> None"
        using nm(3) r by simp
      then have "lookup w' (key_of t @ r) \<noteq> None"
        using continues_preserved[OF c3] preserved_lookup by blast
      then show ?thesis by simp
    qed
  qed
qed

subsection \<open>A target that cannot be created\<close>

lemma CopyFile_needs_folder:
  "lookup w (parent_path (key_of b)) = None \<Longrightarrow> \<not> fst (CopyFile w a b False)"
  by (simp add: CopyFile_success_iff dir_at_def)

lemma CreateDirectory_needs_folder:
  "lookup w (parent_path (key_of p)) = None \<Longrightarrow> \<not> fst (CreateDirectory w p)"
  by (simp add: CreateDirectory_success_iff dir_at_def)

lemma copy_regular_file_barren:
  assumes "p = s @ [n]" and "plain n"
    and "\<forall>q. prefix (key_of t) q \<longrightarrow> lookup w q = None"
  shows "\<exists>e. copy_regular_file w t p =
              (Inr (), w\<lparr>last_err := e,
                        journal := journal w @ [CopyFile_call p (t @ filename p) (Some e)],
                        log := log w @ [LOG_LAST_ERROR e]\<rparr>)"
proof -
  note nm = entry_source[OF assms(1,2)] entry_target[OF assms(1,2), of t]
  have folder: "lookup w (parent_path (key_of (t @ filename p))) = None"
    using assms(3) nm(3) by (simp add: parent_path_def)
  have "lookup w (key_of (t @ filename p)) = None"
    using assms(3) nm(3) by simp
  then have "stat w (t @ filename p) = None" by (simp add: stat_def)
  then have u: "up_to_date w p (t @ filename p) = Inr False"
    by (simp add: up_to_date_def exists_def)
  show ?thesis
  proof (cases rule: copy_regular_file_outcome[of w t p])
    case (copied w1)
    then show ?thesis using CopyFile_needs_folder[OF folder] by simp
  next
    case (failed e)
    then show ?thesis by blast
  qed (use u in simp_all)
qed

lemma CopyDirTo_barren:
  assumes "CopyDirTo fuel w s t = Some (res, w')"
    and "\<forall>q. prefix (key_of t) q \<longrightarrow> lookup w q = None"
    and "\<not> fst (CreateDirectory w t)"
  shows "files w' = files w \<and>
         (\<exists>e cs. journal w' = journal w @ CreateDirectory_call t (Some e) # cs \<and>
                 list_all failed cs)"
  using assms
proof (induction fuel arbitrary: w s t res w')
  case 0
  then show ?case by simp
next
  case (Suc fuel)
  have "lookup w (key_of t) = None" using Suc.prems(2) by simp
  then have ne: "\<not> exists w t" by (simp add: exists_def stat_def)
  from CreateDirectory_failure[OF Suc.prems(3)] obtain e where
    mk: "CreateDirectory w t =
       (False, w\<lparr>last_err := e, journal := journal w @ [CreateDirectory_call t (Some e)]\<rparr>)"
    by blast
  define w1 where "w1 = w\<lparr>last_err := e, journal := journal w @ [CreateDirectory_call t (Some e)]\<rparr>"
  have f1: "files w1 = files w" and j1: "journal w1 = journal w @ [CreateDirectory_call t (Some e)]"
    by (simp_all add: w1_def)
  let ?I = "\<lambda>w2 :: world.
              files w2 = files w \<and> (\<exists>cs. journal w2 = journal w1 @ cs \<and> list_all failed cs)"
  have wrap: ?case if "?I w'"
  proof -
    from that obtain cs where "journal w' = journal w1 @ cs" "list_all failed cs" by blast
    then have "journal w' = journal w @ CreateDirectory_call t (Some e) # cs"
      using j1 by simp
    then show ?thesis using that \<open>list_all failed cs\<close> by blast
  qed
  show ?case
  proof (cases "directory_iterator w1 s")
    case (Inl x)
    then have "w' = w1" using Suc.prems(1) ne mk by (simp add: w1_def Let_def)
    then have "?I w'" using f1 by simp
    then show ?thesis by (rule wrap)
  next
    case (Inr ps)
    then have run: "for_each_entry (CopyDirTo fuel) w1 t ps = Some (res, w')"
      using Suc.prems(1) ne mk by (simp add: w1_def Let_def)
    have "?I w'"
    proof (rule for_each_entry_invariant[where I = ?I, OF run])
      show "?I w1" using f1 by simp
    next
      fix w2 p
      assume mem: "(p, regular) \<in> set ps" and i: "?I w2"
      from directory_iterator_entry[OF Inr mem] obtain n where n: "p = s @ [n]" "plain n"
        by blast
      have "lookup w2 q = lookup w q" for q using i by (simp add: lookup_def)
      then have "\<forall>q. prefix (key_of t) q \<longrightarrow> lookup w2 q = None"
        using Suc.prems(2) by simp
      from copy_regular_file_barren[OF n this] obtain x where
        c: "snd (copy_regular_file w2 t p) =
              w2\<lparr>last_err := x,
                  journal := journal w2 @ [CopyFile_call p (t @ filename p) (Some x)],
                  log := log w2 @ [LOG_LAST_ERROR x]\<rparr>"
        by auto
      from i obtain cs where cs: "journal w2 = journal w1 @ cs" "list_all failed cs" by blast
      have "files (snd (copy_regular_file w2 t p)) = files w"
        using i c by simp
      moreover have "journal (snd (copy_regular_file w2 t p)) =
                   journal w1 @ (cs @ [CopyFile_call p (t @ filename p) (Some x)])"
        using cs(1) c by simp
      moreover have "list_all failed (cs @ [CopyFile_call p (t @ filename p) (Some x)])"
        using cs(2) by simp
      ultimately show "?I (snd (copy_regular_file w2 t p))" by blast
    next
      fix w2 p r w3
      assume mem: "(p, directory) \<in> set ps" and i: "?I w2"
        and rec: "CopyDirTo fuel w2 p (t @ filename p) = Some (r, w3)"
      from directory_iterator_entry[OF Inr mem] obtain n where n: "p = s @ [n]" "plain n"
        by blast
      note nm = entry_target[OF n, of t]
      have l2: "lookup w2 q = lookup w q" for q using i by (simp add: lookup_def)
      have barren: "\<forall>q. prefix (key_of (t @ filename p)) q \<longrightarrow> lookup w2 q = None"
      proof (intro allI impI)
        fix q
        assume "prefix (key_of (t @ filename p)) q"
        then have "prefix (key_of t) q"
          unfolding nm using append_prefixD by blast
        then show "lookup w2 q = None" using Suc.prems(2) l2 by simp
      qed
      have "lookup w2 (parent_path (key_of (t @ filename p))) = None"
        using Suc.prems(2) l2 nm by (simp add: parent_path_def)
      then have "\<not> fst (CreateDirectory w2 (t @ filename p))"
        by (rule CreateDirectory_needs_folder)
      from Suc.IH[OF rec barren this] obtain x ds where
        f3: "files w3 = files w2"
        and j3: "journal w3 = journal w2 @ CreateDirectory_call (t @ filename p) (Some x) # ds"
        and fl: "list_all failed ds"
        by blast
      from i obtain cs where cs: "journal w2 = journal w1 @ cs" "list_all failed cs" by blast
      have "files w3 = files w" using f3 i by simp
      moreover have "journal w3 =
                   journal w1 @ (cs @ CreateDirectory_call (t @ filename p) (Some x) # ds)"
        using cs(1) j3 by simp
      moreover have "list_all failed (cs @ CreateDirectory_call (t @ filename p) (Some x) # ds)"
        using cs(2) fl by simp
      ultimately show "?I w3" by blast
    qed
    then show ?thesis by (rule wrap)
  qed
qed

subsection \<open>Stale entries\<close>

lemmas walk_eval = fs_eval CopyToDirectory_def clean_destination_def remove_all_def
  path_of_def is_separator_def S_OK_def E_FAIL_def numeral_2_eq_2 numeral_3_eq_3

lemma locked_file_example:
  "CopyToDirectory 2 locked_world ''dst'' ''src'' False = Some (Inr S_OK, locked_world_after)"
  by (simp add: locked_world_def locked_world_after_def walk_eval ERROR_SHARING_VIOLATION_def)

text \<open>
  Claim C8, as the code has it. A run of \<open>CopyDirTo\<close> that ends, normally or in an
  exception, removes no entry and changes the type of none. Outside the target it
  changes nothing but the last write time of the directory in which it has created the
  target. An entry at or under the target at whose place under the source there is
  nothing when the walk has ended is left as it was: bytes, type and last write time.
  When neither folder lies inside the other, the walk leaves the source tree as it was,
  and an entry at or under the target at whose place under the source there is nothing
  when the walk starts is left as it was. \<open>CopyToDirectory\<close> called with
  \<open>cleanDest = false\<close> removes no entry either: only the clean step deletes.
\<close>

theorem stale_entries_untouched:
  assumes "CopyDirTo fuel w s t = Some (res, w')"
  shows "(\<forall>q nd. lookup w q = Some nd \<longrightarrow> (\<exists>nd'. lookup w' q = Some nd' \<and> ftype nd' = ftype nd)) \<and>
         (\<forall>q. \<not> prefix (key_of t) q \<and> lookup w' q \<noteq> lookup w q \<longrightarrow>
              q = parent_path (key_of t) \<and> lookup w (key_of t) = None \<and>
              lookup w' (key_of t) \<noteq> None \<and>
              (\<exists>nd time. lookup w q = Some nd \<and> lookup w' q = Some (nd\<lparr>mtime := time\<rparr>))) \<and>
         (\<forall>r nd. lookup w (key_of t @ r) = Some nd \<and> lookup w' (key_of s @ r) = None \<longrightarrow>
                 lookup w' (key_of t @ r) = Some nd) \<and>
         (\<not> prefix (key_of s) (key_of t) \<and> \<not> prefix (key_of t) (key_of s) \<longrightarrow>
            (\<forall>r. lookup w' (key_of s @ r) = lookup w (key_of s @ r)) \<and>
            (\<forall>r nd. lookup w (key_of t @ r) = Some nd \<and> lookup w (key_of s @ r) = None \<longrightarrow>
                    lookup w' (key_of t @ r) = Some nd)) \<and>
         (\<forall>fuel0 w0 destination source out w2.
            CopyToDirectory fuel0 w0 destination source False = Some (out, w2) \<longrightarrow>
            (\<forall>q. lookup w0 q \<noteq> None \<longrightarrow> lookup w2 q \<noteq> None))"
proof -
  let ?s = "key_of s" and ?t = "key_of t"
  have pres: "preserved w w'"
    using CopyDirTo_continues[OF assms] by (rule continues_preserved)
  have foot: "footprint ?s ?t w w'"
    using assms by (rule CopyDirTo_footprint)
  have change: "(prefix ?t q \<and> (lookup w q = None \<or> lookup w' (?s @ drop (length ?t) q) \<noteq> None)) \<or>
          (q = parent_path ?t \<and> ?t \<noteq> [] \<and> lookup w ?t = None \<and> lookup w' ?t \<noteq> None \<and>
           restamped (lookup w q) (lookup w' q))"
    if "lookup w' q \<noteq> lookup w q" for q
    by (rule foot[unfolded footprint_def, rule_format, OF that])
  have a: "\<forall>q nd. lookup w q = Some nd \<longrightarrow> (\<exists>nd'. lookup w' q = Some nd' \<and> ftype nd' = ftype nd)"
    using pres by (simp add: preserved_def)
  have b: "\<forall>q. \<not> prefix ?t q \<and> lookup w' q \<noteq> lookup w q \<longrightarrow>
              q = parent_path ?t \<and> lookup w ?t = None \<and> lookup w' ?t \<noteq> None \<and>
              (\<exists>nd time. lookup w q = Some nd \<and> lookup w' q = Some (nd\<lparr>mtime := time\<rparr>))"
  proof (intro allI impI)
    fix q
    assume q: "\<not> prefix ?t q \<and> lookup w' q \<noteq> lookup w q"
    then have "lookup w' q \<noteq> lookup w q" by simp
    from change[OF this] q
    have "q = parent_path ?t \<and> ?t \<noteq> [] \<and> lookup w ?t = None \<and> lookup w' ?t \<noteq> None \<and>
           restamped (lookup w q) (lookup w' q)"
      by blast
    then show "q = parent_path ?t \<and> lookup w ?t = None \<and> lookup w' ?t \<noteq> None \<and>
              (\<exists>nd time. lookup w q = Some nd \<and> lookup w' q = Some (nd\<lparr>mtime := time\<rparr>))"
      unfolding restamped_def by blast
  qed
  have stale: "lookup w' (?t @ r) = Some nd"
    if "lookup w (?t @ r) = Some nd" "lookup w' (?s @ r) = None" for r nd
  proof (rule ccontr)
    assume "lookup w' (?t @ r) \<noteq> Some nd"
    then have "lookup w' (?t @ r) \<noteq> lookup w (?t @ r)" using that(1) by simp
    from change[OF this] have "lookup w' (?s @ r) \<noteq> None"
    proof
      assume "prefix ?t (?t @ r) \<and>
              (lookup w (?t @ r) = None \<or>
               lookup w' (?s @ drop (length ?t) (?t @ r)) \<noteq> None)"
      then show ?thesis using that(1) by simp
    next
      assume "?t @ r = parent_path ?t \<and> ?t \<noteq> [] \<and> lookup w ?t = None \<and>
              lookup w' ?t \<noteq> None \<and> restamped (lookup w (?t @ r)) (lookup w' (?t @ r))"
      then have "?t \<noteq> []" and "prefix ?t (parent_path ?t)"
        by (simp_all add: prefix_def) (metis)
      then show ?thesis using not_prefix_parent by blast
    qed
    then show False using that(2) by simp
  qed
  have c: "\<forall>r nd. lookup w (?t @ r) = Some nd \<and> lookup w' (?s @ r) = None \<longrightarrow>
                 lookup w' (?t @ r) = Some nd"
    using stale by blast
  have d: "(\<forall>r. lookup w' (?s @ r) = lookup w (?s @ r)) \<and>
            (\<forall>r nd. lookup w (?t @ r) = Some nd \<and> lookup w (?s @ r) = None \<longrightarrow>
                    lookup w' (?t @ r) = Some nd)"
    if apart: "\<not> prefix ?s ?t \<and> \<not> prefix ?t ?s"
  proof -
    have source: "lookup w' (?s @ r) = lookup w (?s @ r)" for r
    proof (rule ccontr)
      assume "lookup w' (?s @ r) \<noteq> lookup w (?s @ r)"
      from change[OF this] show False
      proof
        assume "prefix ?t (?s @ r) \<and>
                (lookup w (?s @ r) = None \<or>
                 lookup w' (?s @ drop (length ?t) (?s @ r)) \<noteq> None)"
        then have "prefix ?t (?s @ r)" by simp
        then have "prefix ?t ?s \<or> prefix ?s ?t"
          by (meson prefix_append prefix_same_cases prefix_order.dual_order.refl prefixI)
        then show False using apart by simp
      next
        assume "?s @ r = parent_path ?t \<and> ?t \<noteq> [] \<and> lookup w ?t = None \<and>
                lookup w' ?t \<noteq> None \<and> restamped (lookup w (?s @ r)) (lookup w' (?s @ r))"
        then have "?s @ r = butlast ?t" and "?t \<noteq> []" by (simp_all add: parent_path_def)
        then have "?t = (?s @ r) @ [last ?t]"
          using append_butlast_last_id[of ?t] by metis
        then have "?t = ?s @ (r @ [last ?t])" by simp
        then have "prefix ?s ?t" by (rule prefixI)
        then show False using apart by simp
      qed
    qed
    then show ?thesis using stale by simp
  qed
  have e: "\<forall>fuel0 w0 destination source out w2.
            CopyToDirectory fuel0 w0 destination source False = Some (out, w2) \<longrightarrow>
            (\<forall>q. lookup w0 q \<noteq> None \<longrightarrow> lookup w2 q \<noteq> None)"
  proof (intro allI impI)
    fix fuel0 w0 destination source out w2 q
    assume run: "CopyToDirectory fuel0 w0 destination source False = Some (out, w2)"
      and q: "lookup w0 q \<noteq> None"
    have "preserved w0 w2"
    proof (cases "wfind destination source = Some 0")
      case True
      then show ?thesis using run by (simp add: CopyToDirectory_def)
    next
      case False
      then obtain r where "CopyDirTo fuel0 w0 (path_of source) (path_of destination) = Some (r, w2)"
        using run
        by (auto simp: CopyToDirectory_def clean_destination_def
            split: option.splits sum.splits)
      then show ?thesis using CopyDirTo_continues continues_preserved by blast
    qed
    then show "lookup w2 q \<noteq> None" using q by (rule preserved_lookup)
  qed
  from a b c d e show ?thesis by blast
qed

theorem stale_entries_untouched_witness:
  "CopyDirTo 2 locked_world [''src''] [''dst''] = Some (Inr (), locked_world_after) \<and>
   lookup locked_world [''dst'', ''stray''] = Some \<lparr>ftype = regular, content = [7], mtime = 2\<rparr> \<and>
   lookup locked_world [''src'', ''stray''] = None \<and>
   lookup locked_world_after [''dst'', ''stray'']
     = Some \<lparr>ftype = regular, content = [7], mtime = 2\<rparr> \<and>
   lookup locked_world_after [''src'', ''f''] = lookup locked_world [''src'', ''f'']"
proof -
  have run: "CopyDirTo 2 locked_world [''src''] [''dst''] = Some (Inr (), locked_world_after)"
    by (simp add: locked_world_def locked_world_after_def walk_eval ERROR_SHARING_VIOLATION_def)
  have k: "key_of [''src''] = [''src'']" "key_of [''dst''] = [''dst'']"
    by (simp_all add: key_of_def descend_def)
  have apart: "\<not> prefix (key_of [''src'']) (key_of [''dst'']) \<and>
               \<not> prefix (key_of [''dst'']) (key_of [''src''])"
    unfolding k by simp
  have before: "lookup locked_world (key_of [''dst''] @ [''stray''])
                  = Some \<lparr>ftype = regular, content = [7], mtime = 2\<rparr> \<and>
                lookup locked_world (key_of [''src''] @ [''stray'']) = None"
    unfolding k by (simp add: locked_world_def lookup_def)
  note t = stale_entries_untouched[OF run, THEN conjunct2, THEN conjunct2, THEN conjunct2,
      THEN conjunct1, rule_format, OF apart]
  from t[THEN conjunct2, rule_format, OF before]
  have "lookup locked_world_after (key_of [''dst''] @ [''stray''])
          = Some \<lparr>ftype = regular, content = [7], mtime = 2\<rparr>" .
  moreover from t[THEN conjunct1, rule_format, of "[''f'']"]
  have "lookup locked_world_after (key_of [''src''] @ [''f''])
          = lookup locked_world (key_of [''src''] @ [''f''])" .
  ultimately show ?thesis using run before unfolding k by simp
qed

text \<open>
  Claim C8 as stated fails. The source \<open>dst/a\<close> lies inside the destination \<open>dst\<close>,
  which the guard lets through. The file \<open>dst/b/x\<close> is under the destination and
  there is nothing at the corresponding place \<open>dst/a/b/x\<close> of the source when
  \<open>CopyToDirectory\<close> is called, so the claim has it left untouched. The walk first
  copies \<open>dst/a/a/b/x\<close> to \<open>dst/a/b/x\<close>, then finds it there and copies it over
  \<open>dst/b/x\<close>, whose bytes and last write time are lost.
\<close>

theorem nested_source_overwrites_stale_entry:
  "path_of ''dst'' = [''dst''] \<and> path_of ''dst/a'' = [''dst'', ''a''] \<and>
   lookup nested_world [''dst'', ''b'', ''x'']
     = Some \<lparr>ftype = regular, content = [7], mtime = 2\<rparr> \<and>
   lookup nested_world [''dst'', ''a'', ''b'', ''x''] = None \<and>
   CopyToDirectory 3 nested_world ''dst'' ''dst/a'' False = Some (Inr S_OK, nested_world_after) \<and>
   lookup nested_world_after [''dst'', ''b'', ''x'']
     = Some \<lparr>ftype = regular, content = [9], mtime = 50\<rparr>"
  by (simp add: nested_world_def nested_world_after_def walk_eval)

subsection \<open>Copies that fail\<close>

lemma failed_copy_logged:
  "CopyFile_call a b (Some e) \<in> set cs \<Longrightarrow> LOG_LAST_ERROR e \<in> set (concat (map log_of cs))"
  by (induction cs) auto

lemma CopyToDirectory_mirror:
  assumes "\<not> prefix source destination"
    and "clean_destination w (path_of destination) cleanDest = Inr w1"
    and "CopyDirTo fuel w1 (path_of source) (path_of destination) = Some (Inr (), w')"
  shows "CopyToDirectory fuel w destination source cleanDest = Some (Inr S_OK, w')"
  using assms by (simp add: CopyToDirectory_def wfind_0_iff)




subsection \<open>A directory creation that fails\<close>




end
